theory Spec2Isabelle
  imports Main "HOL-Library.Word"
begin

unbundle bit_operations_syntax

section \<open>Data model of the event-selection set (event_selection_set.cpp)\<close>

text \<open>
  The kernel's \<^verbatim>\<open>perf_event_attr\<close>, restricted to the members that
  event_selection_set.cpp and cmd_stat.cpp write. In the kernel header
  \<^verbatim>\<open>sample_period\<close> and \<^verbatim>\<open>sample_freq\<close> are the two members of one union,
  so the record has one field for both; \<open>sample_freq\<close> below reads it under its other name.
  \<^verbatim>\<open>type\<close> and \<^verbatim>\<open>config\<close> are called \<open>attr_type\<close> and \<open>attr_config\<close>. The one-bit
  members are booleans and \<^verbatim>\<open>precise_ip\<close>, a bit-field of two bits, is a word of two bits.
\<close>

type_synonym u32 = "32 word"
type_synonym u64 = "64 word"

record perf_event_attr =
  attr_type :: u32
  attr_config :: u64
  sample_period :: u64
  sample_type :: u64
  read_format :: u64
  disabled :: bool
  inherit :: bool
  exclude_user :: bool
  exclude_kernel :: bool
  exclude_hv :: bool
  exclude_host :: bool
  exclude_guest :: bool
  mmap :: bool
  comm :: bool
  mmap2 :: bool
  freq :: bool
  precise_ip :: "2 word"
  branch_sample_type :: u64
  aux_watermark :: u32

abbreviation sample_freq :: "perf_event_attr \<Rightarrow> u64" where
  "sample_freq a \<equiv> sample_period a"

text \<open>Constants of the kernel header \<^verbatim>\<open>linux/perf_event.h\<close>.\<close>

definition PERF_TYPE_TRACEPOINT :: u32 where "PERF_TYPE_TRACEPOINT = 2"
definition PERF_TYPE_RAW :: u32 where "PERF_TYPE_RAW = 4"

definition PERF_SAMPLE_READ :: u64 where "PERF_SAMPLE_READ = push_bit 4 1"
definition PERF_FORMAT_GROUP :: u64 where "PERF_FORMAT_GROUP = push_bit 3 1"
definition PERF_SAMPLE_BRANCH_STACK :: u64 where "PERF_SAMPLE_BRANCH_STACK = push_bit 11 1"
definition PERF_SAMPLE_BRANCH_ANY :: u64 where "PERF_SAMPLE_BRANCH_ANY = push_bit 3 1"
definition PERF_SAMPLE_BRANCH_ANY_CALL :: u64 where "PERF_SAMPLE_BRANCH_ANY_CALL = push_bit 4 1"
definition PERF_SAMPLE_BRANCH_ANY_RETURN :: u64 where
  "PERF_SAMPLE_BRANCH_ANY_RETURN = push_bit 5 1"
definition PERF_SAMPLE_BRANCH_IND_CALL :: u64 where "PERF_SAMPLE_BRANCH_IND_CALL = push_bit 6 1"

text \<open>
  \<^verbatim>\<open>EventType\<close> and \<^verbatim>\<open>EventTypeAndModifier\<close> are declared in event_type.h, which is
  outside the sources at hand. The records hold the members the code reads; what the code
  obtains through the methods \<^verbatim>\<open>IsPmuEvent()\<close>, \<^verbatim>\<open>IsHardwareEvent()\<close>,
  \<^verbatim>\<open>GetPmuCpumask()\<close> and \<^verbatim>\<open>GetIntelAtomCpuConfig()\<close> is a field each. The member
  \<^verbatim>\<open>precise_ip\<close> of \<^verbatim>\<open>EventTypeAndModifier\<close> is an \<^verbatim>\<open>int\<close>; assigning it to the
  attribute's bit-field keeps its two low bits.
\<close>

record EventType =
  et_name :: string
  et_type :: u32
  et_config :: u64
  IsPmuEvent :: bool
  IsHardwareEvent :: bool
  GetPmuCpumask :: "int list"
  GetIntelAtomCpuConfig :: u64

record EventTypeAndModifier =
  etm_name :: string
  event_type :: EventType
  modifier :: string
  etm_exclude_user :: bool
  etm_exclude_kernel :: bool
  etm_exclude_hv :: bool
  etm_exclude_host :: bool
  etm_exclude_guest :: bool
  etm_precise_ip :: int

text \<open>
  Modelled from the spec: \<^verbatim>\<open>EventFd\<close> (event_fd.h is outside the sources at hand) is
  "an owned kernel file descriptor with ... its (tid, cpu) pairing, and a group leader
  relation pointing at another event fd". \<open>fd_leader\<close> is the descriptor number of the
  leader that was passed to the open call, \<open>None\<close> for \<^verbatim>\<open>nullptr\<close>.
\<close>

record EventFd =
  perf_event_fd :: nat
  fd_attr :: perf_event_attr
  fd_name :: string
  fd_tid :: int
  fd_cpu :: int
  fd_leader :: "nat option"

record EventSelection =
  event_type_modifier :: EventTypeAndModifier
  event_attr :: perf_event_attr
  event_fds :: "EventFd list"
  tracepoint_filter :: string
  allowed_cpus :: "int list"

record EventSelectionGroup =
  selections :: "EventSelection list"
  set_sample_rate :: bool
  cpus :: "int list"

record SampleRate =
  rate_sample_freq :: u64
  rate_sample_period :: u64

datatype AddrFilterType =
  FILE_RANGE | FILE_START | FILE_STOP | KERNEL_RANGE | KERNEL_START | KERNEL_STOP

record AddrFilter =
  filter_type :: AddrFilterType
  filter_addr :: u64
  filter_size :: u64
  file_path :: string

text \<open>
  The members of \<^verbatim>\<open>EventSelectionSet\<close> that hold the selections and the session defaults.
  The source's members end in an underscore (\<^verbatim>\<open>groups_\<close>, \<^verbatim>\<open>sample_rate_\<close>, ...);
  the fields drop it, and \<^verbatim>\<open>cpus_\<close> is \<open>session_cpus\<close>. The two \<^verbatim>\<open>std::set<pid_t>\<close>
  members are lists of their elements.
\<close>

record EventSelectionSet =
  for_stat_cmd :: bool
  groups :: "EventSelectionGroup list"
  processes :: "int list"
  threads :: "int list"
  sample_rate :: "SampleRate option"
  session_cpus :: "int list option"
  has_aux_trace :: bool
  addr_filters :: "AddrFilter list"

text \<open>\<^verbatim>\<open>PerfCounter\<close>: what one read of an event file returns.\<close>

record PerfCounter =
  counter_value :: u64
  time_enabled :: u64
  time_running :: u64
  counter_id :: u64

text \<open>
  The calls that leave the process: opening an event file, setting a filter on it,
  reading its counter, and the four operations on the \<^verbatim>\<open>Workload\<close> child process.
  The state of the outside world is the list of the calls made so far, oldest first.
  Descriptors are named by the position of their open call in that list, so no two
  event files share a number.
\<close>

datatype sys_call =
    Call_OpenEventFile perf_event_attr int int "nat option" string
  | Call_SetFilter nat string
  | Call_ReadCounter nat
  | Call_CreateWorkload
  | Call_SetCpuAffinity int
  | Call_Start
  | Call_WaitChildProcess

type_synonym world = "sys_call list"

text \<open>
  What the code asks of functions that live outside the sources at hand (event_type.cpp,
  event_attr.cpp, event_fd.cpp, workload.cpp, ETMRecorder.cpp, environment.cpp, the
  headers), taken as parameters. Probes of the host and lookups in the registry of event
  types are functions of their arguments. The outcome of a call that leaves the process is a function of the
  calls made so far, the call itself being the last of them: \<open>call_ok\<close> says whether
  it succeeds, \<open>GetPid\<close> is the pid of the workload just created, \<open>read_value\<close> the
  counter a successful read returns.
\<close>

record env =
  ParseEventType :: "string \<Rightarrow> EventTypeAndModifier option"
  FindEventTypeByName :: "string \<Rightarrow> EventType option"
  CreateDefaultPerfEventAttr :: "EventType \<Rightarrow> perf_event_attr"
  IsEtmEventType :: "u32 \<Rightarrow> bool"
  CheckEtmSupport :: bool
  SetEtmPerfEventAttr :: "perf_event_attr \<Rightarrow> perf_event_attr"
  GetAddrFilterPairs :: nat
  AddrFilter_ToString :: "AddrFilter \<Rightarrow> string"
  GetKernelVersion :: "(int \<times> int) option"
  IsEventAttrSupported :: "perf_event_attr \<Rightarrow> string \<Rightarrow> bool"
  UseFreq :: "SampleRate \<Rightarrow> bool"
  DEFAULT_SAMPLE_PERIOD_FOR_TRACEPOINT_EVENT :: u64
  DEFAULT_SAMPLE_FREQ_FOR_NONTRACEPOINT_EVENT :: u64
  INFINITE_SAMPLE_PERIOD :: u64
  GetOnlineCpus :: "int list"
  GetThreadsInProcess :: "int \<Rightarrow> int list"
  is_x86 :: bool
  GetX86IntelAtomCpus :: "int list"
  GetX86IntelAtomCpuEventType :: "u32 option"
  call_ok :: "world \<Rightarrow> bool"
  GetPid :: "world \<Rightarrow> int"
  read_value :: "world \<Rightarrow> PerfCounter"

definition EventSelectionSet_init :: "bool \<Rightarrow> EventSelectionSet" where
  "EventSelectionSet_init stat =
     \<lparr>for_stat_cmd = stat, groups = [], processes = [], threads = [],
      sample_rate = None, session_cpus = None, has_aux_trace = False, addr_filters = []\<rparr>"

section \<open>Capability probes\<close>

text \<open>
  The test \<^verbatim>\<open>version && version.value() >= std::make_pair(major, minor)\<close> that the
  probes make on \<^verbatim>\<open>GetKernelVersion()\<close>: pairs are compared lexicographically.
\<close>

definition kernel_at_least :: "env \<Rightarrow> int \<Rightarrow> int \<Rightarrow> bool" where
  "kernel_at_least e major minor =
     (case GetKernelVersion e of
        None \<Rightarrow> False
      | Some (a, b) \<Rightarrow> major < a \<or> (a = major \<and> minor \<le> b))"

text \<open>\<^verbatim>\<open>IsBranchSamplingSupported\<close>.\<close>

definition IsBranchSamplingSupported :: "env \<Rightarrow> bool" where
  "IsBranchSamplingSupported e =
     (case FindEventTypeByName e ''BR_INST_RETIRED.NEAR_TAKEN'' of
        None \<Rightarrow> False
      | Some t \<Rightarrow>
          let attr = CreateDefaultPerfEventAttr e t;
              attr = attr\<lparr>sample_type := sample_type attr OR PERF_SAMPLE_BRANCH_STACK\<rparr>;
              attr = attr\<lparr>branch_sample_type := PERF_SAMPLE_BRANCH_ANY\<rparr>;
              attr = attr\<lparr>exclude_kernel := True\<rparr>
          in IsEventAttrSupported e attr (et_name t))"

text \<open>\<^verbatim>\<open>IsMmap2Supported\<close>.\<close>

definition IsMmap2Supported :: "env \<Rightarrow> bool" where
  "IsMmap2Supported e =
     (if kernel_at_least e 3 12 then True
      else
        (case FindEventTypeByName e ''cpu-clock'' of
           None \<Rightarrow> False
         | Some t \<Rightarrow>
             IsEventAttrSupported e ((CreateDefaultPerfEventAttr e t)\<lparr>mmap2 := True\<rparr>)
               (et_name t)))"

section \<open>Building selections and groups\<close>

definition all_selections :: "EventSelectionSet \<Rightarrow> EventSelection list" where
  "all_selections s = concat (map selections (groups s))"

definition selection_names :: "EventSelectionSet \<Rightarrow> string list" where
  "selection_names s = map (\<lambda>sel. etm_name (event_type_modifier sel)) (all_selections s)"

text \<open>
  \<^verbatim>\<open>EventSelectionSet::BuildAndCheckEventSelection\<close>. \<open>None\<close> is \<^verbatim>\<open>return false\<close>;
  \<open>Some sel\<close> is \<^verbatim>\<open>return true\<close> with the selection written through the pointer.
  The caller passes a default-constructed selection (empty filter, no allowed cpus).
\<close>

definition BuildAndCheckEventSelection ::
  "env \<Rightarrow> EventSelectionSet \<Rightarrow> string \<Rightarrow> bool \<Rightarrow> bool \<Rightarrow> EventSelection option" where
  "BuildAndCheckEventSelection e s event_name first_event check =
    (case ParseEventType e event_name of
       None \<Rightarrow> None
     | Some etm \<Rightarrow>
       if for_stat_cmd s \<and>
          (et_name (event_type etm) = ''cpu-clock'' \<or> et_name (event_type etm) = ''task-clock'') \<and>
          (etm_exclude_user etm \<or> etm_exclude_kernel etm)
       then None
       else
         let a0 = (CreateDefaultPerfEventAttr e (event_type etm))
                    \<lparr>exclude_user := etm_exclude_user etm,
                     exclude_kernel := etm_exclude_kernel etm,
                     exclude_hv := etm_exclude_hv etm,
                     exclude_host := etm_exclude_host etm,
                     exclude_guest := etm_exclude_guest etm,
                     precise_ip := word_of_int (etm_precise_ip etm)\<rparr>;
             is_etm = IsEtmEventType e (et_type (event_type etm))
         in
         if is_etm \<and> \<not> CheckEtmSupport e then None
         else
           let a1 = (if is_etm then (SetEtmPerfEventAttr e a0)\<lparr>aux_watermark := 4096\<rparr> else a0);
               set_default_sample_freq =
                 (\<not> for_stat_cmd s \<and> et_type (event_type etm) \<noteq> PERF_TYPE_TRACEPOINT \<and> \<not> is_etm);
               a2 = (if for_stat_cmd s then a1
                     else if et_type (event_type etm) = PERF_TYPE_TRACEPOINT then
                       a1\<lparr>freq := False,
                          sample_period := DEFAULT_SAMPLE_PERIOD_FOR_TRACEPOINT_EVENT e\<rparr>
                     else if is_etm then
                       a1\<lparr>freq := False, sample_period := 1, disabled := True\<rparr>
                     else a1\<lparr>freq := True, sample_period := 1\<rparr>);
               a3 = (if \<not> for_stat_cmd s \<and> first_event then
                       (let a = a2\<lparr>mmap := True, comm := True\<rparr>
                        in if IsMmap2Supported e then a\<lparr>mmap2 := True\<rparr> else a)
                     else a2)
           in
           if check \<and> \<not> IsPmuEvent (event_type etm) \<and>
              \<not> IsEventAttrSupported e a3 (etm_name etm)
           then None
           else
             let a4 = (if set_default_sample_freq
                       then a3\<lparr>sample_period := DEFAULT_SAMPLE_FREQ_FOR_NONTRACEPOINT_EVENT e\<rparr>
                       else a3)
             in
             if etm_name etm \<in> set (selection_names s) then None
             else Some \<lparr>event_type_modifier = etm, event_attr = a4, event_fds = [],
                        tracepoint_filter = [], allowed_cpus = []\<rparr>)"

text \<open>\<^verbatim>\<open>EventSelectionSet::SetSampleRateForGroup\<close>.\<close>

definition SetSampleRateForGroup ::
  "env \<Rightarrow> EventSelectionGroup \<Rightarrow> SampleRate \<Rightarrow> EventSelectionGroup" where
  "SetSampleRateForGroup e grp rate =
     grp\<lparr>set_sample_rate := True,
           selections :=
             map (\<lambda>selection.
                    if UseFreq e rate
                    then selection\<lparr>event_attr :=
                           (event_attr selection)\<lparr>freq := True,
                                                  sample_period := rate_sample_freq rate\<rparr>\<rparr>
                    else selection\<lparr>event_attr :=
                           (event_attr selection)\<lparr>freq := False,
                                                  sample_period := rate_sample_period rate\<rparr>\<rparr>)
                 (selections grp)\<rparr>"

text \<open>\<^verbatim>\<open>EventSelectionSet::UnionSampleType\<close>: the first loop, then the second.\<close>

definition union_of_sample_types :: "EventSelectionSet \<Rightarrow> u64" where
  "union_of_sample_types s =
     fold (\<lambda>selection acc. acc OR sample_type (event_attr selection)) (all_selections s) 0"

definition UnionSampleType :: "EventSelectionSet \<Rightarrow> EventSelectionSet" where
  "UnionSampleType s =
     (let st = union_of_sample_types s
      in s\<lparr>groups :=
             map (\<lambda>grp. grp\<lparr>selections :=
                    map (\<lambda>selection. selection\<lparr>event_attr :=
                           (event_attr selection)\<lparr>sample_type := st\<rparr>\<rparr>)
                        (selections grp)\<rparr>)
                 (groups s)\<rparr>)"

text \<open>
  The loop of \<^verbatim>\<open>EventSelectionSet::AddEventGroup\<close> over the event names. The state of the
  loop is the group under construction, \<^verbatim>\<open>first_event\<close>, \<^verbatim>\<open>first_in_group\<close> and the
  member \<^verbatim>\<open>has_aux_trace_\<close>; \<^verbatim>\<open>groups_\<close> is not changed until the loop is over, so
  each name is checked against the set \<open>s\<close> as it was when the call began.
  A failing name leaves \<^verbatim>\<open>has_aux_trace_\<close> as the earlier names set it.
\<close>

fun add_group_loop ::
  "env \<Rightarrow> EventSelectionSet \<Rightarrow> bool \<Rightarrow> string list \<Rightarrow> EventSelection list \<Rightarrow> bool \<Rightarrow> bool \<Rightarrow>
   bool \<Rightarrow> (EventSelection list \<times> bool) option \<times> bool" where
  "add_group_loop e s check [] acc first_event first_in_group aux = (Some (acc, aux), aux)"
| "add_group_loop e s check (event_name # rest) acc first_event first_in_group aux =
     (case BuildAndCheckEventSelection e s event_name first_event check of
        None \<Rightarrow> (None, aux)
      | Some selection \<Rightarrow>
          let aux' = (if IsEtmEventType e (attr_type (event_attr selection)) then True else aux);
              selection' =
                (if first_in_group \<and> IsPmuEvent (event_type (event_type_modifier selection))
                 then selection\<lparr>allowed_cpus :=
                        GetPmuCpumask (event_type (event_type_modifier selection))\<rparr>
                 else selection)
          in add_group_loop e s check rest (acc @ [selection']) False False aux')"

text \<open>
  \<^verbatim>\<open>EventSelectionSet::AddEventGroup\<close> up to and including
  \<^verbatim>\<open>groups_.emplace_back(std::move(group))\<close>: the return value so far and the set at
  that point.
\<close>

definition assemble_group ::
  "env \<Rightarrow> string list \<Rightarrow> bool \<Rightarrow> EventSelectionSet \<Rightarrow> bool \<times> EventSelectionSet" where
  "assemble_group e event_names check s =
     (case add_group_loop e s check event_names [] (groups s = []) True (has_aux_trace s) of
        (None, aux) \<Rightarrow> (False, s\<lparr>has_aux_trace := aux\<rparr>)
      | (Some (sels, _), aux) \<Rightarrow>
          let group0 = \<lparr>selections = sels, set_sample_rate = False, cpus = []\<rparr>;
              group1 = (case sample_rate s of
                          None \<Rightarrow> group0
                        | Some rate \<Rightarrow> SetSampleRateForGroup e group0 rate);
              group2 = (case session_cpus s of None \<Rightarrow> group1 | Some cs \<Rightarrow> group1\<lparr>cpus := cs\<rparr>)
          in (True, s\<lparr>groups := groups s @ [group2], has_aux_trace := aux\<rparr>))"

text \<open>
  \<^verbatim>\<open>EventSelectionSet::AddEventGroup\<close>: the return value and the set after the call.
  The last statement before \<^verbatim>\<open>return true\<close> is the call of \<^verbatim>\<open>UnionSampleType\<close>.
\<close>

definition AddEventGroup ::
  "env \<Rightarrow> string list \<Rightarrow> bool \<Rightarrow> EventSelectionSet \<Rightarrow> bool \<times> EventSelectionSet" where
  "AddEventGroup e event_names check s =
     (case assemble_group e event_names check s of
        (False, s') \<Rightarrow> (False, s')
      | (True, s') \<Rightarrow> (True, UnionSampleType s'))"

text \<open>
  The first loop of \<^verbatim>\<open>EventSelectionSet::AddCounters\<close>: each selection is appended to
  \<^verbatim>\<open>groups_[0]\<close> as soon as it is built, so the next name is checked against it.
  A failing name is \<^verbatim>\<open>return false\<close>, with the selections added so far left in the group.
\<close>

fun add_counters_loop :: "env \<Rightarrow> string list \<Rightarrow> EventSelectionSet \<Rightarrow> bool \<times> EventSelectionSet" where
  "add_counters_loop e [] s = (True, s)"
| "add_counters_loop e (event_name # rest) s =
     (case BuildAndCheckEventSelection e s event_name False True of
        None \<Rightarrow> (False, s)
      | Some selection \<Rightarrow>
          let selection' = selection\<lparr>event_attr :=
                (event_attr selection)\<lparr>freq := False,
                                       sample_period := INFINITE_SAMPLE_PERIOD e,
                                       inherit := False\<rparr>\<rparr>;
              group0 = groups s ! 0
          in add_counters_loop e rest
               (s\<lparr>groups := (groups s)[0 := group0\<lparr>selections := selections group0 @ [selection']\<rparr>]\<rparr>))"

text \<open>
  \<^verbatim>\<open>EventSelectionSet::AddCounters\<close>: \<open>None\<close> is the abort of \<^verbatim>\<open>CHECK(!groups_.empty())\<close>,
  otherwise the return value and the set after the call.
\<close>

definition AddCounters ::
  "env \<Rightarrow> string list \<Rightarrow> EventSelectionSet \<Rightarrow> (bool \<times> EventSelectionSet) option" where
  "AddCounters e event_names s =
     (if groups s = [] then None
      else if length (groups s) > 1 then Some (False, s)
      else
        (case add_counters_loop e event_names s of
           (False, s') \<Rightarrow> Some (False, s')
         | (True, s') \<Rightarrow>
             let group0 = groups s' ! 0
             in Some (True,
                  s'\<lparr>groups := (groups s')[0 := group0\<lparr>selections :=
                       map (\<lambda>selection. selection\<lparr>event_attr :=
                              (event_attr selection)
                                \<lparr>sample_type := sample_type (event_attr selection) OR PERF_SAMPLE_READ,
                                 read_format := read_format (event_attr selection) OR
                                                PERF_FORMAT_GROUP\<rparr>\<rparr>)
                           (selections group0)\<rparr>]\<rparr>)))"

text \<open>\<^verbatim>\<open>EventSelectionSet::SetSampleRateForNewEvents\<close>.\<close>

definition SetSampleRateForNewEvents ::
  "env \<Rightarrow> SampleRate \<Rightarrow> EventSelectionSet \<Rightarrow> EventSelectionSet" where
  "SetSampleRateForNewEvents e rate s =
     s\<lparr>sample_rate := Some rate,
       groups := map (\<lambda>grp. if \<not> set_sample_rate grp
                                then SetSampleRateForGroup e grp rate else grp)
                      (groups s)\<rparr>"

text \<open>\<^verbatim>\<open>EventSelectionSet::SetCpusForNewEvents\<close>.\<close>

definition SetCpusForNewEvents :: "int list \<Rightarrow> EventSelectionSet \<Rightarrow> EventSelectionSet" where
  "SetCpusForNewEvents cs s =
     s\<lparr>session_cpus := Some cs,
       groups := map (\<lambda>grp. if cpus grp = [] then grp\<lparr>cpus := cs\<rparr> else grp)
                      (groups s)\<rparr>"

text \<open>
  \<^verbatim>\<open>EventSelectionSet::SetBranchSampling\<close>: the return value and the set after the call.
\<close>

definition SetBranchSampling ::
  "env \<Rightarrow> u64 \<Rightarrow> EventSelectionSet \<Rightarrow> bool \<times> EventSelectionSet" where
  "SetBranchSampling e bst s =
     (if bst \<noteq> 0 \<and>
         bst AND (PERF_SAMPLE_BRANCH_ANY OR PERF_SAMPLE_BRANCH_ANY_CALL OR
                  PERF_SAMPLE_BRANCH_ANY_RETURN OR PERF_SAMPLE_BRANCH_IND_CALL) = 0
      then (False, s)
      else if bst \<noteq> 0 \<and> \<not> IsBranchSamplingSupported e then (False, s)
      else (True,
            s\<lparr>groups :=
                map (\<lambda>grp. grp\<lparr>selections :=
                       map (\<lambda>selection. selection\<lparr>event_attr :=
                              (let attr = event_attr selection;
                                   attr' = (if bst \<noteq> 0
                                            then attr\<lparr>sample_type :=
                                                   sample_type attr OR PERF_SAMPLE_BRANCH_STACK\<rparr>
                                            else attr\<lparr>sample_type :=
                                                   sample_type attr AND NOT PERF_SAMPLE_BRANCH_STACK\<rparr>)
                               in attr'\<lparr>branch_sample_type := bst\<rparr>)\<rparr>)
                           (selections grp)\<rparr>)
                    (groups s)\<rparr>))"

section \<open>Opening event files\<close>

text \<open>
  Modelled from the spec: \<^verbatim>\<open>EventFd::OpenEventFile\<close> (event_fd.cpp is outside the
  sources at hand) issues one \<^verbatim>\<open>perf_event_open\<close> for (attribute, tid, cpu, leader's
  descriptor) and returns the owned descriptor with its (tid, cpu) pairing and leader, or
  \<^verbatim>\<open>nullptr\<close>.
\<close>

definition OpenEventFile ::
  "env \<Rightarrow> world \<Rightarrow> perf_event_attr \<Rightarrow> int \<Rightarrow> int \<Rightarrow> EventFd option \<Rightarrow> string \<Rightarrow>
   EventFd option \<times> world" where
  "OpenEventFile e w attr tid cpu group_fd name =
     (let w' = w @ [Call_OpenEventFile attr tid cpu (map_option perf_event_fd group_fd) name]
      in if call_ok e w'
         then (Some \<lparr>perf_event_fd = length w, fd_attr = attr, fd_name = name, fd_tid = tid,
                      fd_cpu = cpu, fd_leader = map_option perf_event_fd group_fd\<rparr>, w')
         else (None, w'))"

text \<open>
  The first loop of \<^verbatim>\<open>EventSelectionSet::OpenEventFilesOnGroup\<close>, over the selections
  of the group. The state is the local vector \<^verbatim>\<open>event_fds\<close> and \<^verbatim>\<open>group_fd\<close>.
  \<open>None\<close> is \<^verbatim>\<open>return false\<close> (the local vector and the descriptors it owns are
  dropped); \<open>is_x86\<close> selects the branch of the preprocessor conditional. The out
  parameter \<^verbatim>\<open>failed_event_type\<close> only feeds a log message and is left out.
\<close>

fun open_selections ::
  "env \<Rightarrow> int \<Rightarrow> int \<Rightarrow> EventSelection list \<Rightarrow> EventFd list \<Rightarrow> EventFd option \<Rightarrow> world \<Rightarrow>
   EventFd list option \<times> world" where
  "open_selections e tid cpu [] fds group_fd w = (Some fds, w)"
| "open_selections e tid cpu (selection # rest) fds group_fd w =
     (let attr0 = event_attr selection;
          atom = (is_x86 e \<and> attr_type attr0 = PERF_TYPE_RAW \<and> cpu \<in> set (GetX86IntelAtomCpus e))
      in if atom \<and> GetX86IntelAtomCpuEventType e = None then (None, w)
         else
           let attr = (if atom
                       then attr0\<lparr>attr_type := the (GetX86IntelAtomCpuEventType e),
                                  attr_config := GetIntelAtomCpuConfig
                                                   (event_type (event_type_modifier selection))\<rparr>
                       else attr0)
           in case OpenEventFile e w attr tid cpu group_fd
                     (etm_name (event_type_modifier selection)) of
                (None, w') \<Rightarrow> (None, w')
              | (Some event_fd, w') \<Rightarrow>
                  open_selections e tid cpu rest (fds @ [event_fd])
                    (if group_fd = None then Some event_fd else group_fd) w')"

text \<open>
  \<^verbatim>\<open>EventSelectionSet::OpenEventFilesOnGroup\<close>: the return value, the group and the
  world after the call. The second loop hands the i-th descriptor to the i-th selection.
\<close>

definition OpenEventFilesOnGroup ::
  "env \<Rightarrow> EventSelectionGroup \<Rightarrow> int \<Rightarrow> int \<Rightarrow> world \<Rightarrow> bool \<times> EventSelectionGroup \<times> world" where
  "OpenEventFilesOnGroup e grp tid cpu w =
     (case open_selections e tid cpu (selections grp) [] None w of
        (None, w') \<Rightarrow> (False, grp, w')
      | (Some fds, w') \<Rightarrow>
          (True,
           grp\<lparr>selections :=
                 map (\<lambda>(selection, event_fd).
                        selection\<lparr>event_fds := event_fds selection @ [event_fd]\<rparr>)
                     (zip (selections grp) fds)\<rparr>,
           w'))"

text \<open>\<^verbatim>\<open>PrepareThreads\<close>: a \<^verbatim>\<open>std::set\<close>, iterated in ascending order.\<close>

definition PrepareThreads :: "env \<Rightarrow> int list \<Rightarrow> int list \<Rightarrow> int list" where
  "PrepareThreads e procs thrs =
     sort (remdups (thrs @ concat (map (GetThreadsInProcess e) procs)))"

text \<open>The lambda \<^verbatim>\<open>check_if_cpus_online\<close> of \<^verbatim>\<open>OpenEventFilesForThreads\<close>.\<close>

definition check_if_cpus_online :: "int list \<Rightarrow> int list \<Rightarrow> bool" where
  "check_if_cpus_online online_cpus cs =
     (if length cs = 1 \<and> cs ! 0 = - 1 then True
      else list_all (\<lambda>cpu. cpu \<in> set online_cpus) cs)"

text \<open>
  The choice of \<^verbatim>\<open>pcpus\<close> at the head of the loop body of
  \<^verbatim>\<open>OpenEventFilesForThreads\<close>, for a group whose first selection is \<open>selection0\<close>.
  \<open>override_pcpus\<close> is the pointer after the first \<^verbatim>\<open>if\<close>: it starts at the group's
  list and is redirected to the first selection's allowed cpus when these are not empty.
  \<open>choose_pcpus\<close> is the pointer after the second \<^verbatim>\<open>if\<close>: \<open>None\<close> is the
  \<^verbatim>\<open>return false\<close> of its \<^verbatim>\<open>else\<close> branch.
\<close>

definition override_pcpus :: "EventSelectionGroup \<Rightarrow> EventSelection \<Rightarrow> int list" where
  "override_pcpus grp selection0 =
     (let pcpus = cpus grp
      in if allowed_cpus selection0 \<noteq> [] then allowed_cpus selection0 else pcpus)"

definition choose_pcpus ::
  "int list \<Rightarrow> EventSelectionGroup \<Rightarrow> EventSelection \<Rightarrow> int list option" where
  "choose_pcpus online_cpus grp selection0 =
     (let pcpus = override_pcpus grp selection0
      in if pcpus = [] then Some online_cpus
         else if \<not> check_if_cpus_online online_cpus pcpus then None
         else Some pcpus)"

text \<open>
  The two nested loops over the threads and the cpus: the state is the group,
  \<^verbatim>\<open>success_count\<close> and the world.
\<close>

fun open_on_cpus ::
  "env \<Rightarrow> int \<Rightarrow> int list \<Rightarrow> EventSelectionGroup \<times> nat \<times> world \<Rightarrow>
   EventSelectionGroup \<times> nat \<times> world" where
  "open_on_cpus e tid [] st = st"
| "open_on_cpus e tid (cpu # rest) (grp, success_count, w) =
     (case OpenEventFilesOnGroup e grp tid cpu w of
        (True, grp', w') \<Rightarrow> open_on_cpus e tid rest (grp', success_count + 1, w')
      | (False, grp', w') \<Rightarrow> open_on_cpus e tid rest (grp', success_count, w'))"

fun open_on_threads ::
  "env \<Rightarrow> int list \<Rightarrow> int list \<Rightarrow> EventSelectionGroup \<times> nat \<times> world \<Rightarrow>
   EventSelectionGroup \<times> nat \<times> world" where
  "open_on_threads e [] pcpus st = st"
| "open_on_threads e (tid # rest) pcpus st =
     open_on_threads e rest pcpus (open_on_cpus e tid pcpus st)"

text \<open>
  The body of the loop of \<^verbatim>\<open>OpenEventFilesForThreads\<close> over \<^verbatim>\<open>groups_\<close>, for one
  group. The result is \<open>Some True\<close> when the group has a successful (tid, cpu),
  \<open>Some False\<close> for \<^verbatim>\<open>return false\<close>, and \<open>None\<close> when the code reads
  \<^verbatim>\<open>group.selections[0]\<close> of a group without selections, which C++ leaves undefined.
\<close>

definition open_group ::
  "env \<Rightarrow> int list \<Rightarrow> EventSelectionGroup \<Rightarrow> world \<Rightarrow>
   bool option \<times> EventSelectionGroup \<times> world" where
  "open_group e thrs grp w =
     (case selections grp of
        [] \<Rightarrow> (None, grp, w)
      | selection0 # _ \<Rightarrow>
          (case choose_pcpus (GetOnlineCpus e) grp selection0 of
             None \<Rightarrow> (Some False, grp, w)
           | Some pcpus \<Rightarrow>
               (case open_on_threads e thrs pcpus (grp, 0, w) of
                  (grp', success_count, w') \<Rightarrow>
                    if success_count = 0 then (Some False, grp', w')
                    else (Some True, grp', w'))))"

text \<open>
  The loop over \<^verbatim>\<open>groups_\<close>: \<open>handled\<close> are the groups before the current one, with
  the descriptors they received. Any result but \<open>Some True\<close> leaves the loop.
\<close>

fun open_groups ::
  "env \<Rightarrow> int list \<Rightarrow> EventSelectionGroup list \<Rightarrow> EventSelectionGroup list \<Rightarrow> world \<Rightarrow>
   bool option \<times> EventSelectionGroup list \<times> world" where
  "open_groups e thrs handled [] w = (Some True, handled, w)"
| "open_groups e thrs handled (grp # rest) w =
     (case open_group e thrs grp w of
        (Some True, grp', w') \<Rightarrow> open_groups e thrs (handled @ [grp']) rest w'
      | (r, grp', w') \<Rightarrow> (r, handled @ grp' # rest, w'))"

text \<open>
  \<^verbatim>\<open>EventFd::SetFilter\<close> on a sequence of (descriptor, filter) pairs, as the loops of
  \<^verbatim>\<open>ApplyAddrFilters\<close> and \<^verbatim>\<open>ApplyTracepointFilters\<close> issue them: the first failure
  is \<^verbatim>\<open>return false\<close>.
\<close>

fun set_filters :: "env \<Rightarrow> (EventFd \<times> string) list \<Rightarrow> world \<Rightarrow> bool \<times> world" where
  "set_filters e [] w = (True, w)"
| "set_filters e ((event_fd, str) # rest) w =
     (let w' = w @ [Call_SetFilter (perf_event_fd event_fd) str]
      in if call_ok e w' then set_filters e rest w' else (False, w'))"

text \<open>\<^verbatim>\<open>EventSelectionSet::ApplyAddrFilters\<close>.\<close>

definition ApplyAddrFilters :: "env \<Rightarrow> EventSelectionSet \<Rightarrow> world \<Rightarrow> bool \<times> world" where
  "ApplyAddrFilters e s w =
     (if addr_filters s = [] then (True, w)
      else if \<not> has_aux_trace s then (False, w)
      else
        let required_etm_filter_count =
              sum_list (map (\<lambda>f. if filter_type f = FILE_RANGE \<or> filter_type f = KERNEL_RANGE
                                 then 2 else (1::nat)) (addr_filters s));
            etm_filter_count = GetAddrFilterPairs e * 2
        in if etm_filter_count < required_etm_filter_count then (False, w)
           else
             let filter_str =
                   fold (\<lambda>f str. (if str \<noteq> [] then str @ '','' else str) @ AddrFilter_ToString e f)
                        (addr_filters s) []
             in set_filters e
                  (concat (map (\<lambda>selection.
                       if IsEtmEventType e (et_type (event_type (event_type_modifier selection)))
                       then map (\<lambda>event_fd. (event_fd, filter_str)) (event_fds selection)
                       else [])
                     (all_selections s))) w)"

text \<open>\<^verbatim>\<open>EventSelectionSet::ApplyTracepointFilters\<close>.\<close>

definition ApplyTracepointFilters :: "env \<Rightarrow> EventSelectionSet \<Rightarrow> world \<Rightarrow> bool \<times> world" where
  "ApplyTracepointFilters e s w =
     set_filters e
       (concat (map (\<lambda>selection.
            if tracepoint_filter selection \<noteq> []
            then map (\<lambda>event_fd. (event_fd, tracepoint_filter selection)) (event_fds selection)
            else [])
          (all_selections s))) w"

text \<open>\<^verbatim>\<open>EventSelectionSet::ApplyFilters\<close>, with the short circuit of \<^verbatim>\<open>&&\<close>.\<close>

definition ApplyFilters :: "env \<Rightarrow> EventSelectionSet \<Rightarrow> world \<Rightarrow> bool \<times> world" where
  "ApplyFilters e s w =
     (case ApplyAddrFilters e s w of
        (False, w') \<Rightarrow> (False, w')
      | (True, w') \<Rightarrow> ApplyTracepointFilters e s w')"

text \<open>
  \<^verbatim>\<open>EventSelectionSet::OpenEventFilesForThreads\<close>: the return value (\<open>None\<close> as in
  \<open>open_group\<close>), the set and the world after the call.
\<close>

definition OpenEventFilesForThreads ::
  "env \<Rightarrow> int list \<Rightarrow> EventSelectionSet \<Rightarrow> world \<Rightarrow> bool option \<times> EventSelectionSet \<times> world" where
  "OpenEventFilesForThreads e thrs s w =
     (case open_groups e thrs [] (groups s) w of
        (Some True, gs, w') \<Rightarrow>
          (case ApplyFilters e (s\<lparr>groups := gs\<rparr>) w' of
             (b, w'') \<Rightarrow> (Some b, s\<lparr>groups := gs\<rparr>, w''))
      | (r, gs, w') \<Rightarrow> (r, s\<lparr>groups := gs\<rparr>, w'))"

text \<open>\<^verbatim>\<open>EventSelectionSet::OpenEventFiles\<close>.\<close>

definition OpenEventFiles ::
  "env \<Rightarrow> EventSelectionSet \<Rightarrow> world \<Rightarrow> bool option \<times> EventSelectionSet \<times> world" where
  "OpenEventFiles e s w =
     OpenEventFilesForThreads e (PrepareThreads e (processes s) (threads s)) s w"

section \<open>The check for hardware-counter multiplexing (cmd_stat.cpp)\<close>

text \<open>
  \<^verbatim>\<open>std::map<int, size_t>\<close> as an association list in ascending order of the key,
  the order in which the map is iterated. \<open>cpu_map_add cpu n m\<close> is
  \<^verbatim>\<open>m[cpu] += n\<close>: a missing key is inserted with 0 first.
\<close>

fun cpu_map_add :: "int \<Rightarrow> nat \<Rightarrow> (int \<times> nat) list \<Rightarrow> (int \<times> nat) list" where
  "cpu_map_add cpu n [] = [(cpu, 0 + n)]"
| "cpu_map_add cpu n ((c, k) # rest) =
     (if cpu = c then (c, k + n) # rest
      else if cpu < c then (cpu, 0 + n) # (c, k) # rest
      else (c, k) # cpu_map_add cpu n rest)"

text \<open>\<^verbatim>\<open>EventSelectionSet::GetHardwareCountersForCpus\<close>.\<close>

definition GetHardwareCountersForCpus :: "env \<Rightarrow> EventSelectionSet \<Rightarrow> (int \<times> nat) list" where
  "GetHardwareCountersForCpus e s =
     fold (\<lambda>grp cpu_map.
             let hardware_events =
                   length (filter (\<lambda>selection.
                             IsHardwareEvent (event_type (event_type_modifier selection)))
                           (selections grp));
                 pcpus = (if cpus grp = [] then GetOnlineCpus e else cpus grp)
             in fold (\<lambda>cpu m. cpu_map_add cpu hardware_events m) pcpus cpu_map)
          (groups s) []"

text \<open>
  The first loop of \<^verbatim>\<open>CheckHardwareCountersOnCpu\<close>: \<open>n\<close> iterations are left, the
  local vector is \<open>fds\<close>. \<open>None\<close> is the \<^verbatim>\<open>return false\<close> after a failed open.
\<close>

fun open_cycles ::
  "env \<Rightarrow> perf_event_attr \<Rightarrow> int \<Rightarrow> int \<Rightarrow> nat \<Rightarrow> EventFd list \<Rightarrow> world \<Rightarrow>
   EventFd list option \<times> world" where
  "open_cycles e attr pid cpu 0 fds w = (Some fds, w)"
| "open_cycles e attr pid cpu (Suc n) fds w =
     (let group_event_fd = (if fds = [] then None else Some (fds ! 0))
      in case OpenEventFile e w attr pid cpu group_event_fd ''cpu-cycles'' of
           (None, w') \<Rightarrow> (None, w')
         | (Some event_fd, w') \<Rightarrow> open_cycles e attr pid cpu n (fds @ [event_fd]) w')"

text \<open>
  Modelled from the spec: \<^verbatim>\<open>EventFd::ReadCounter\<close> (event_fd.cpp is outside the sources
  at hand) is one \<^verbatim>\<open>read\<close> of the descriptor, giving
  \<^verbatim>\<open>{value, time_enabled, time_running, id}\<close> or failing.
\<close>

definition ReadCounter :: "env \<Rightarrow> EventFd \<Rightarrow> world \<Rightarrow> PerfCounter option \<times> world" where
  "ReadCounter e event_fd w =
     (let w' = w @ [Call_ReadCounter (perf_event_fd event_fd)]
      in if call_ok e w' then (Some (read_value e w'), w') else (None, w'))"

text \<open>
  The second loop of \<^verbatim>\<open>CheckHardwareCountersOnCpu\<close>, over the opened descriptors;
  the result is what the function returns.
\<close>

fun check_counters :: "env \<Rightarrow> EventFd list \<Rightarrow> world \<Rightarrow> bool option \<times> world" where
  "check_counters e [] w = (Some True, w)"
| "check_counters e (event_fd # rest) w =
     (case ReadCounter e event_fd w of
        (None, w') \<Rightarrow> (None, w')
      | (Some counter, w') \<Rightarrow>
          if time_enabled counter = 0 \<or> time_enabled counter > time_running counter
          then (Some False, w')
          else check_counters e rest w')"

text \<open>
  The calls on the \<^verbatim>\<open>Workload\<close> (workload.cpp is outside the sources at hand): each is
  one call that leaves the process and succeeds or fails.
\<close>

definition workload_call :: "env \<Rightarrow> sys_call \<Rightarrow> world \<Rightarrow> bool \<times> world" where
  "workload_call e c w = (call_ok e (w @ [c]), w @ [c])"

text \<open>
  \<^verbatim>\<open>CheckHardwareCountersOnCpu\<close>: \<open>None\<close> is \<^verbatim>\<open>std::nullopt\<close>. The conditions
  joined by \<^verbatim>\<open>||\<close> are evaluated left to right and stop at the first that holds.
\<close>

definition CheckHardwareCountersOnCpu ::
  "env \<Rightarrow> int \<Rightarrow> nat \<Rightarrow> world \<Rightarrow> bool option \<times> world" where
  "CheckHardwareCountersOnCpu e cpu counters w =
     (if counters = 0 then (Some True, w)
      else
        (case FindEventTypeByName e ''cpu-cycles'' of
           None \<Rightarrow> (None, w)
         | Some event \<Rightarrow>
             (let attr = (CreateDefaultPerfEventAttr e event)\<lparr>exclude_kernel := True\<rparr>
              in (case workload_call e Call_CreateWorkload w of
                    (False, w1) \<Rightarrow> (None, w1)
                  | (True, w1) \<Rightarrow>
                 (case workload_call e (Call_SetCpuAffinity cpu) w1 of
                    (False, w2) \<Rightarrow> (None, w2)
                  | (True, w2) \<Rightarrow>
                 (case open_cycles e attr (GetPid e w1) cpu counters [] w2 of
                    (None, w3) \<Rightarrow> (Some False, w3)
                  | (Some fds, w3) \<Rightarrow>
                 (case workload_call e Call_Start w3 of
                    (False, w4) \<Rightarrow> (None, w4)
                  | (True, w4) \<Rightarrow>
                 (case workload_call e Call_WaitChildProcess w4 of
                    (False, w5) \<Rightarrow> (None, w5)
                  | (True, w5) \<Rightarrow> check_counters e fds w5))))))))"

text \<open>
  The loop of \<^verbatim>\<open>StatCommand::CheckHardwareCounterMultiplexing\<close> over the map: the
  result says whether the warning was logged; the loop breaks after logging it.
\<close>

fun check_cpus :: "env \<Rightarrow> (int \<times> nat) list \<Rightarrow> world \<Rightarrow> bool \<times> world" where
  "check_cpus e [] w = (False, w)"
| "check_cpus e ((cpu, hardware_events) # rest) w =
     (case CheckHardwareCountersOnCpu e cpu hardware_events w of
        (Some False, w') \<Rightarrow> (True, w')
      | (_, w') \<Rightarrow> check_cpus e rest w')"

definition CheckHardwareCounterMultiplexing ::
  "env \<Rightarrow> EventSelectionSet \<Rightarrow> world \<Rightarrow> bool \<times> world" where
  "CheckHardwareCounterMultiplexing e s w = check_cpus e (GetHardwareCountersForCpus e s) w"

section \<open>Counter summaries (cmd_stat.cpp)\<close>

text \<open>
  \<^verbatim>\<open>CounterSummary\<close> is declared in a header outside the sources at hand; the fields
  are the arguments of the constructor call in \<^verbatim>\<open>AutoGenerateSummaries\<close>, in its order.
  \<open>thread\<close> is the pointer \<^verbatim>\<open>const ThreadInfo*\<close>, compared by address: \<open>None\<close> is
  \<^verbatim>\<open>nullptr\<close>. \<open>count\<close> and \<open>runtime_in_ns\<close> are \<^verbatim>\<open>uint64_t\<close>. \<open>scale\<close> is a
  \<^verbatim>\<open>double\<close> that the code here only copies, so its type is a parameter. The rendered
  strings \<^verbatim>\<open>readable_count\<close> and \<^verbatim>\<open>comment\<close>, which the constructor derives with
  \<^verbatim>\<open>printf\<close> formatting from \<open>count\<close> and the \<^verbatim>\<open>csv\<close> flag, are left out.
  The member \<^verbatim>\<open>modifier\<close> is \<open>modifier_of\<close> here.
\<close>

record 'd CounterSummary =
  type_name :: string
  modifier_of :: string
  group_id :: u32
  thread :: "nat option"
  cpu :: int
  count :: u64
  runtime_in_ns :: u64
  scale :: 'd
  auto_generated :: bool

text \<open>\<^verbatim>\<open>CounterSummaries::FindSummary\<close>: the first match, \<open>None\<close> for \<^verbatim>\<open>nullptr\<close>.\<close>

definition FindSummary ::
  "'d CounterSummary list \<Rightarrow> string \<Rightarrow> string \<Rightarrow> nat option \<Rightarrow> int \<Rightarrow> 'd CounterSummary option"
  where
  "FindSummary summaries tn md th c =
     find (\<lambda>s. type_name s = tn \<and> modifier_of s = md \<and> thread s = th \<and> cpu s = c) summaries"

text \<open>
  The body of the loop of \<^verbatim>\<open>CounterSummaries::AutoGenerateSummaries\<close> for the summary
  \<open>s\<close>, on the vector \<open>summaries\<close>. \<^verbatim>\<open>IsMonitoredAtTheSameTime\<close> is declared in the
  header outside the sources at hand and is the parameter \<open>same_time\<close>, the receiver
  first. \<^verbatim>\<open>s.count + other->count\<close> is an addition of \<^verbatim>\<open>uint64_t\<close>.
\<close>

definition generate_for ::
  "('d CounterSummary \<Rightarrow> 'd CounterSummary \<Rightarrow> bool) \<Rightarrow> 'd CounterSummary list \<Rightarrow>
   'd CounterSummary \<Rightarrow> 'd CounterSummary list" where
  "generate_for same_time summaries s =
     (if modifier_of s = ''u'' then
        (case FindSummary summaries (type_name s) ''k'' (thread s) (cpu s) of
           None \<Rightarrow> summaries
         | Some other \<Rightarrow>
             if same_time other s then
               (if FindSummary summaries (type_name s) [] (thread s) (cpu s) = None
                then summaries @
                     [\<lparr>type_name = type_name s, modifier_of = [], group_id = group_id s,
                       thread = thread s, cpu = cpu s, count = count s + count other,
                       runtime_in_ns = runtime_in_ns s, scale = scale s,
                       auto_generated = True\<rparr>]
                else summaries)
             else summaries)
      else summaries)"

text \<open>
  The loop itself: the index runs up to the size of the vector, which grows while the
  loop runs. It ends because an appended summary has the empty modifier: each pass
  either moves past a summary with modifier \<^verbatim>\<open>u\<close> or leaves the size alone.
\<close>

function auto_generate_loop ::
  "('d CounterSummary \<Rightarrow> 'd CounterSummary \<Rightarrow> bool) \<Rightarrow> nat \<Rightarrow> 'd CounterSummary list \<Rightarrow>
   'd CounterSummary list" where
  "auto_generate_loop same_time i summaries =
     (if i < length summaries
      then auto_generate_loop same_time (i + 1) (generate_for same_time summaries (summaries ! i))
      else summaries)"
  by pat_completeness auto

lemma generate_for_cases:
  "generate_for st xs s = xs \<or>
   (modifier_of s = ''u'' \<and> (\<exists>a. modifier_of a = [] \<and> generate_for st xs s = xs @ [a]))"
  by (auto simp: generate_for_def split: option.splits)

termination auto_generate_loop
proof (relation "measures [\<lambda>(st, i, xs). length (filter (\<lambda>s. modifier_of s = ''u'') (drop i xs)),
                            \<lambda>(st, i, xs). length xs - i]", goal_cases)
  case 1
  show ?case by simp
next
  case (2 st i xs)
  have d: "drop i xs = xs ! i # drop (Suc i) xs"
    using 2 by (simp add: Cons_nth_drop_Suc)
  from generate_for_cases [of st xs "xs ! i"]
  show ?case
  proof
    assume same: "generate_for st xs (xs ! i) = xs"
    have "length (filter (\<lambda>s. modifier_of s = ''u'') (drop (Suc i) xs))
               \<le> length (filter (\<lambda>s. modifier_of s = ''u'') (drop i xs))"
      by (simp add: d)
    with same 2 show ?thesis by auto
  next
    assume "modifier_of (xs ! i) = ''u'' \<and>
            (\<exists>a. modifier_of a = [] \<and> generate_for st xs (xs ! i) = xs @ [a])"
    then obtain a where u: "modifier_of (xs ! i) = ''u''" and a: "modifier_of a = []"
      and g: "generate_for st xs (xs ! i) = xs @ [a]" by blast
    have "length (filter (\<lambda>s. modifier_of s = ''u'') (drop (Suc i) (xs @ [a])))
          < length (filter (\<lambda>s. modifier_of s = ''u'') (drop i xs))"
      using 2 u a by (simp add: d)
    with g show ?thesis by simp
  qed
qed

text \<open>\<^verbatim>\<open>CounterSummaries::AutoGenerateSummaries\<close> on the member \<^verbatim>\<open>summaries_\<close>.\<close>

definition AutoGenerateSummaries ::
  "('d CounterSummary \<Rightarrow> 'd CounterSummary \<Rightarrow> bool) \<Rightarrow> 'd CounterSummary list \<Rightarrow>
   'd CounterSummary list" where
  "AutoGenerateSummaries same_time summaries = auto_generate_loop same_time 0 summaries"

section \<open>Vocabulary for statements about the calls made\<close>

definition is_open :: "sys_call \<Rightarrow> bool" where
  "is_open c = (case c of Call_OpenEventFile a t c' g nm \<Rightarrow> True | _ \<Rightarrow> False)"

definition is_read :: "sys_call \<Rightarrow> bool" where
  "is_read c = (case c of Call_ReadCounter fd \<Rightarrow> True | _ \<Rightarrow> False)"

definition open_cpu :: "sys_call \<Rightarrow> int option" where
  "open_cpu c = (case c of Call_OpenEventFile a t c' g nm \<Rightarrow> Some c' | _ \<Rightarrow> None)"

definition open_tid :: "sys_call \<Rightarrow> int option" where
  "open_tid c = (case c of Call_OpenEventFile a t c' g nm \<Rightarrow> Some t | _ \<Rightarrow> None)"

definition open_name :: "sys_call \<Rightarrow> string option" where
  "open_name c = (case c of Call_OpenEventFile a t c' g nm \<Rightarrow> Some nm | _ \<Rightarrow> None)"

text \<open>A counter shows multiplexing, as the second loop of the check reads it.\<close>

definition multiplexed :: "PerfCounter \<Rightarrow> bool" where
  "multiplexed counter = (time_enabled counter = 0 \<or> time_enabled counter > time_running counter)"

text \<open>The name that a selection built from an event name carries.\<close>

definition parsed_name :: "env \<Rightarrow> string \<Rightarrow> string" where
  "parsed_name e name = (case ParseEventType e name of None \<Rightarrow> [] | Some etm \<Rightarrow> etm_name etm)"

text \<open>The number of descriptors that each selection of a group holds, in order.\<close>

definition fd_counts :: "EventSelectionGroup \<Rightarrow> nat list" where
  "fd_counts grp = map (\<lambda>selection. length (event_fds selection)) (selections grp)"

text \<open>
  An open call without a leader, and the (tid, cpu) of an open call.
\<close>

definition is_leader_open :: "sys_call \<Rightarrow> bool" where
  "is_leader_open c = (case c of Call_OpenEventFile a t c' g nm \<Rightarrow> g = None | _ \<Rightarrow> False)"

definition open_pair :: "sys_call \<Rightarrow> (int \<times> int) option" where
  "open_pair c = (case c of Call_OpenEventFile a t c' g nm \<Rightarrow> Some (t, c') | _ \<Rightarrow> None)"

text \<open>
  The two local values of the first loop of \<^verbatim>\<open>OpenEventFilesOnGroup\<close>, by name: whether
  the selection is a raw event opened on an Intel Atom cpu, and the attribute that is
  passed to the open call.
\<close>

definition atom_case :: "env \<Rightarrow> int \<Rightarrow> EventSelection \<Rightarrow> bool" where
  "atom_case e cp sel =
     (is_x86 e \<and> attr_type (event_attr sel) = PERF_TYPE_RAW \<and> cp \<in> set (GetX86IntelAtomCpus e))"

definition open_attr :: "env \<Rightarrow> int \<Rightarrow> EventSelection \<Rightarrow> perf_event_attr" where
  "open_attr e cp sel =
     (if atom_case e cp sel
      then (event_attr sel)\<lparr>attr_type := the (GetX86IntelAtomCpuEventType e),
                            attr_config := GetIntelAtomCpuConfig
                                             (event_type (event_type_modifier sel))\<rparr>
      else event_attr sel)"

text \<open>
  The cpus on which \<^verbatim>\<open>GetHardwareCountersForCpus\<close> counts a group, the number of
  hardware events of a group, and the number of hardware events requested on a cpu: for
  each group, its hardware events once for every occurrence of the cpu in the group's
  list.
\<close>

definition count_cpus :: "env \<Rightarrow> EventSelectionGroup \<Rightarrow> int list" where
  "count_cpus e grp = (if cpus grp = [] then GetOnlineCpus e else cpus grp)"

definition hardware_events :: "EventSelectionGroup \<Rightarrow> nat" where
  "hardware_events grp =
     length (filter (\<lambda>selection. IsHardwareEvent (event_type (event_type_modifier selection)))
               (selections grp))"

definition requested_count :: "env \<Rightarrow> EventSelectionSet \<Rightarrow> int \<Rightarrow> nat" where
  "requested_count e s c =
     sum_list (map (\<lambda>grp. count_list (count_cpus e grp) c * hardware_events grp) (groups s))"

text \<open>The value of a key of the map, 0 when the key is absent.\<close>

definition map_val :: "(int \<times> nat) list \<Rightarrow> int \<Rightarrow> nat" where
  "map_val m x = (case map_of m x of None \<Rightarrow> 0 | Some k \<Rightarrow> k)"

text \<open>
  One pass of the body of the two loops of \<^verbatim>\<open>OpenEventFilesForThreads\<close> over the
  threads and the cpus, for the pair (tid, cpu): the state is the group,
  \<^verbatim>\<open>success_count\<close> and the world.
\<close>

definition try_pair ::
  "env \<Rightarrow> int \<times> int \<Rightarrow> EventSelectionGroup \<times> nat \<times> world \<Rightarrow> EventSelectionGroup \<times> nat \<times> world" where
  "try_pair e p st =
     (case p of (tid, cp) \<Rightarrow>
        (case st of (grp, success_count, w) \<Rightarrow>
           (case OpenEventFilesOnGroup e grp tid cp w of
              (ok, grp', w') \<Rightarrow>
                (grp', (if ok then success_count + 1 else success_count), w'))))"

text \<open>
  \<^verbatim>\<open>OpenEventFilesOnGroup\<close> on a cpu makes no open call at all: the group has no
  selection, or its first selection is a raw event, the cpu is an Intel Atom cpu and the
  Atom event type is missing.
\<close>

definition leader_bails :: "env \<Rightarrow> EventSelectionGroup \<Rightarrow> int \<Rightarrow> bool" where
  "leader_bails e grp cp =
     (case selections grp of
        [] \<Rightarrow> True
      | sel # _ \<Rightarrow> atom_case e cp sel \<and> GetX86IntelAtomCpuEventType e = None)"

text \<open>
  The cpumask of the PMU of a selection's event type; an event type that is not of a PMU
  has none.
\<close>

definition pmu_cpumask :: "EventSelection \<Rightarrow> int list" where
  "pmu_cpumask sel =
     (if IsPmuEvent (event_type (event_type_modifier sel))
      then GetPmuCpumask (event_type (event_type_modifier sel))
      else [])"

text \<open>
  A group has a first selection; this one has the cpumask of its PMU as its allowed cpus,
  and no other selection of the group has allowed cpus.
\<close>

definition cpumask_on_first :: "EventSelectionGroup \<Rightarrow> bool" where
  "cpumask_on_first grp =
     (case selections grp of
        [] \<Rightarrow> False
      | selection0 # others \<Rightarrow>
          map allowed_cpus (selections grp) = pmu_cpumask selection0 # map (\<lambda>_. []) others)"

text \<open>
  The member functions that add selections to a set or change them, as operations: a set
  is configured by a sequence of them. \<open>apply_op\<close> gives the set after the call, whatever
  the call returned; \<open>None\<close> is the abort of \<^verbatim>\<open>AddCounters\<close>.
  \<^verbatim>\<open>AddEventType(name, check)\<close> is \<^verbatim>\<open>AddEventGroup\<close> of the one name.
\<close>

datatype set_op =
    Op_AddEventGroup "string list" bool
  | Op_AddCounters "string list"
  | Op_SetCpusForNewEvents "int list"
  | Op_SetSampleRateForNewEvents SampleRate
  | Op_SetBranchSampling u64

definition apply_op :: "env \<Rightarrow> set_op \<Rightarrow> EventSelectionSet \<Rightarrow> EventSelectionSet option" where
  "apply_op e op s =
     (case op of
        Op_AddEventGroup event_names check \<Rightarrow> Some (snd (AddEventGroup e event_names check s))
      | Op_AddCounters event_names \<Rightarrow> map_option snd (AddCounters e event_names s)
      | Op_SetCpusForNewEvents cs \<Rightarrow> Some (SetCpusForNewEvents cs s)
      | Op_SetSampleRateForNewEvents rate \<Rightarrow> Some (SetSampleRateForNewEvents e rate s)
      | Op_SetBranchSampling bst \<Rightarrow> Some (snd (SetBranchSampling e bst s)))"

fun configure :: "env \<Rightarrow> set_op list \<Rightarrow> EventSelectionSet \<Rightarrow> EventSelectionSet option" where
  "configure e [] s = Some s"
| "configure e (op # ops) s =
     (case apply_op e op s of
        None \<Rightarrow> None
      | Some s' \<Rightarrow> configure e ops s')"

text \<open>An operation that is not \<^verbatim>\<open>AddEventGroup\<close> of an empty vector of names.\<close>

definition names_given :: "set_op \<Rightarrow> bool" where
  "names_given op =
     (case op of
        Op_AddEventGroup event_names check \<Rightarrow> event_names \<noteq> []
      | _ \<Rightarrow> True)"

text \<open>
  A sequence of calls that is run until one of them stops it. After the calls \<open>w\<close>, the
  call \<open>c\<close> lets the sequence go on when it succeeds and, for a counter read, the counter
  does not show multiplexing. \<open>run_script\<close> gives the calls that are made: all up to and
  including the first that stops the sequence. \<open>run_ok\<close> says that none stops it.
\<close>

definition continues :: "env \<Rightarrow> world \<Rightarrow> sys_call \<Rightarrow> bool" where
  "continues e w c =
     (call_ok e (w @ [c]) \<and> (is_read c \<longrightarrow> \<not> multiplexed (read_value e (w @ [c]))))"

fun run_script :: "env \<Rightarrow> world \<Rightarrow> sys_call list \<Rightarrow> sys_call list" where
  "run_script e w [] = []"
| "run_script e w (c # cs) = c # (if continues e w c then run_script e (w @ [c]) cs else [])"

fun run_ok :: "env \<Rightarrow> world \<Rightarrow> sys_call list \<Rightarrow> bool" where
  "run_ok e w [] = True"
| "run_ok e w (c # cs) = (continues e w c \<and> run_ok e (w @ [c]) cs)"

text \<open>
  What a sequence of calls run after \<open>w\<close> means for the check: true when no call stops
  it; false when the call that stops it is an open (that failed) or a counter read that
  succeeded (and shows multiplexing); no answer when it is any other call, or a counter
  read that failed.
\<close>

definition script_verdict :: "env \<Rightarrow> world \<Rightarrow> sys_call list \<Rightarrow> bool option" where
  "script_verdict e w script =
     (if run_ok e w script then Some True
      else
        let calls = run_script e w script
        in if is_open (last calls) \<or> (is_read (last calls) \<and> call_ok e (w @ calls))
           then Some False else None)"

text \<open>
  The calls of one check of \<open>n\<close> counters (\<open>n\<close> not 0) on a cpu, begun after the calls \<open>w\<close>:
  the workload is created and pinned to the cpu; \<open>n\<close> cpu-cycles events are opened for
  the workload's process on that cpu, the first without a leader and the others with the
  first as their leader (its descriptor is the call's position, \<open>length w + 2\<close>); the
  workload is started and waited for; the \<open>n\<close> counters are read in the order they were
  opened. No call is listed when the event type cpu-cycles is not known.
\<close>

definition check_script :: "env \<Rightarrow> int \<Rightarrow> nat \<Rightarrow> world \<Rightarrow> sys_call list" where
  "check_script e cp n w =
     (case FindEventTypeByName e ''cpu-cycles'' of
        None \<Rightarrow> []
      | Some event \<Rightarrow>
          let attr = (CreateDefaultPerfEventAttr e event)\<lparr>exclude_kernel := True\<rparr>;
              pid = GetPid e (w @ [Call_CreateWorkload]);
              leader = length w + 2
          in [Call_CreateWorkload, Call_SetCpuAffinity cp] @
             (Call_OpenEventFile attr pid cp None ''cpu-cycles'' #
              replicate (n - 1) (Call_OpenEventFile attr pid cp (Some leader) ''cpu-cycles'')) @
             [Call_Start, Call_WaitChildProcess] @
             map (\<lambda>i. Call_ReadCounter (leader + i)) [0..<n])"

text \<open>
  The world after the checks of the first \<open>k\<close> entries of the map, run one after the
  other; and the check of entry \<open>k\<close>, run after those before it, returns false.
\<close>

definition checks_upto :: "env \<Rightarrow> (int \<times> nat) list \<Rightarrow> world \<Rightarrow> nat \<Rightarrow> world" where
  "checks_upto e m w k =
     fold (\<lambda>entry w'. snd (CheckHardwareCountersOnCpu e (fst entry) (snd entry) w')) (take k m) w"

definition warns_at :: "env \<Rightarrow> (int \<times> nat) list \<Rightarrow> world \<Rightarrow> nat \<Rightarrow> bool" where
  "warns_at e m w k =
     (k < length m \<and>
      fst (CheckHardwareCountersOnCpu e (fst (m ! k)) (snd (m ! k)) (checks_upto e m w k))
        = Some False)"

section \<open>A small environment for running the model on concrete inputs\<close>

definition zero_attr :: perf_event_attr where
  "zero_attr =
     \<lparr>attr_type = 0, attr_config = 0, sample_period = 0, sample_type = 0, read_format = 0,
      disabled = False, inherit = False, exclude_user = False, exclude_kernel = False,
      exclude_hv = False, exclude_host = False, exclude_guest = False, mmap = False,
      comm = False, mmap2 = False, freq = False, precise_ip = 0, branch_sample_type = 0,
      aux_watermark = 0\<rparr>"

definition hw_type :: "string \<Rightarrow> u64 \<Rightarrow> EventType" where
  "hw_type n c =
     \<lparr>et_name = n, et_type = 0, et_config = c, IsPmuEvent = False, IsHardwareEvent = True,
      GetPmuCpumask = [], GetIntelAtomCpuConfig = 0\<rparr>"

definition sw_type :: "string \<Rightarrow> u64 \<Rightarrow> EventType" where
  "sw_type n c =
     \<lparr>et_name = n, et_type = 1, et_config = c, IsPmuEvent = False, IsHardwareEvent = False,
      GetPmuCpumask = [], GetIntelAtomCpuConfig = 0\<rparr>"

definition plain :: "string \<Rightarrow> EventType \<Rightarrow> EventTypeAndModifier" where
  "plain n t =
     \<lparr>etm_name = n, event_type = t, modifier = [], etm_exclude_user = False,
      etm_exclude_kernel = False, etm_exclude_hv = False, etm_exclude_host = False,
      etm_exclude_guest = False, etm_precise_ip = 0\<rparr>"

text \<open>
  The event types of the example host, an x86 machine without Atom cores: two hardware
  events, a software clock, the raw event that the branch-sampling probe looks up, and an
  event of an uncore PMU whose cpumask is cpu 1.
\<close>

definition example_types :: "EventType list" where
  "example_types =
     [hw_type ''cpu-cycles'' 0, hw_type ''instructions'' 1, sw_type ''cpu-clock'' 0,
      \<lparr>et_name = ''BR_INST_RETIRED.NEAR_TAKEN'', et_type = 4, et_config = 2,
       IsPmuEvent = False, IsHardwareEvent = False, GetPmuCpumask = [],
       GetIntelAtomCpuConfig = 0\<rparr>,
      \<lparr>et_name = ''uncore_imc/cas_count_read/'', et_type = 13, et_config = 3,
       IsPmuEvent = True, IsHardwareEvent = False, GetPmuCpumask = [1],
       GetIntelAtomCpuConfig = 0\<rparr>]"

definition example_find :: "string \<Rightarrow> EventType option" where
  "example_find n = find (\<lambda>t. et_name t = n) example_types"

text \<open>Names are an event type's name, and \<^verbatim>\<open>cpu-clock:u\<close> with the modifier u.\<close>

definition example_parse :: "string \<Rightarrow> EventTypeAndModifier option" where
  "example_parse n =
     (if n = ''cpu-clock:u'' then
        map_option (\<lambda>t. (plain n t)\<lparr>modifier := ''u'', etm_exclude_kernel := True\<rparr>)
          (example_find ''cpu-clock'')
      else map_option (plain n) (example_find n))"

text \<open>
  Every call succeeds but an open for thread 7 on cpu 0 that names a leader; every
  counter reads as enabled for 10 and running for 5.
\<close>

definition example_env :: env where
  "example_env =
     \<lparr>ParseEventType = example_parse,
      FindEventTypeByName = example_find,
      CreateDefaultPerfEventAttr =
        (\<lambda>t. zero_attr\<lparr>attr_type := et_type t, attr_config := et_config t,
                         sample_type := push_bit (unat (et_config t)) 1\<rparr>),
      IsEtmEventType = (\<lambda>_. False),
      CheckEtmSupport = False,
      SetEtmPerfEventAttr = (\<lambda>a. a),
      GetAddrFilterPairs = 0,
      AddrFilter_ToString = (\<lambda>_. []),
      GetKernelVersion = Some (5, 10),
      IsEventAttrSupported = (\<lambda>_ _. True),
      UseFreq = (\<lambda>r. rate_sample_freq r \<noteq> 0),
      DEFAULT_SAMPLE_PERIOD_FOR_TRACEPOINT_EVENT = 1,
      DEFAULT_SAMPLE_FREQ_FOR_NONTRACEPOINT_EVENT = 4000,
      INFINITE_SAMPLE_PERIOD = push_bit 62 1,
      GetOnlineCpus = [0, 1],
      GetThreadsInProcess = (\<lambda>_. []),
      is_x86 = True,
      GetX86IntelAtomCpus = [],
      GetX86IntelAtomCpuEventType = None,
      call_ok = (\<lambda>w. w \<noteq> [] \<and>
                       \<not> (open_pair (last w) = Some (7, 0) \<and> \<not> is_leader_open (last w))),
      GetPid = (\<lambda>_. 100),
      read_value = (\<lambda>_. \<lparr>counter_value = 5, time_enabled = 10, time_running = 5,
                          counter_id = 0\<rparr>)\<rparr>"

text \<open>
  The same host with counters that were never enabled, and with counters that ran all
  the time they were enabled.
\<close>

definition example_env_idle :: env where
  "example_env_idle =
     example_env\<lparr>read_value := (\<lambda>_. \<lparr>counter_value = 0, time_enabled = 0, time_running = 0,
                                        counter_id = 0\<rparr>)\<rparr>"

definition example_env_steady :: env where
  "example_env_steady =
     example_env\<lparr>read_value := (\<lambda>_. \<lparr>counter_value = 5, time_enabled = 10, time_running = 10,
                                        counter_id = 0\<rparr>)\<rparr>"

text \<open>
  A set for the stat command with one group of two hardware events and the monitored
  thread 7, and its group.
\<close>

definition example_set :: EventSelectionSet where
  "example_set =
     (snd (AddEventGroup example_env [''cpu-cycles'', ''instructions''] True
             (EventSelectionSet_init True)))\<lparr>threads := [7]\<rparr>"

definition example_group :: EventSelectionGroup where
  "example_group = hd (groups example_set)"

text \<open>
  A set configured with the cpu list [0] and then two groups: the first begins with the
  event of the uncore PMU, the second is a hardware event alone.
\<close>

definition example_ops :: "set_op list" where
  "example_ops =
     [Op_SetCpusForNewEvents [0],
      Op_AddEventGroup [''uncore_imc/cas_count_read/'', ''cpu-cycles''] True,
      Op_AddEventGroup [''instructions''] True]"

definition example_pmu_set :: EventSelectionSet where
  "example_pmu_set =
     snd (AddEventGroup example_env [''instructions''] True
       (snd (AddEventGroup example_env [''uncore_imc/cas_count_read/'', ''cpu-cycles''] True
          (SetCpusForNewEvents [0] (EventSelectionSet_init True)))))"

text \<open>A summary of the session-wide mode: no thread, cpu -1.\<close>

definition example_summary :: "string \<Rightarrow> string \<Rightarrow> u64 \<Rightarrow> nat CounterSummary" where
  "example_summary tn md c =
     \<lparr>type_name = tn, modifier_of = md, group_id = 0, thread = None, cpu = - 1, count = c,
      runtime_in_ns = 1000, scale = 1, auto_generated = False\<rparr>"

section \<open>Facts about the selection set\<close>

lemmas example_defs =
  example_env_def example_parse_def example_find_def example_types_def plain_def hw_type_def
  sw_type_def zero_attr_def IsMmap2Supported_def kernel_at_least_def
  EventSelectionSet_init_def BuildAndCheckEventSelection_def AddEventGroup_def
  assemble_group_def UnionSampleType_def union_of_sample_types_def all_selections_def
  selection_names_def PERF_TYPE_TRACEPOINT_def SetSampleRateForGroup_def

lemma SetSampleRateForGroup_flag: "set_sample_rate (SetSampleRateForGroup e g r)"
  by (simp add: SetSampleRateForGroup_def)

lemma SetSampleRateForNewEvents_twice:
  "SetSampleRateForNewEvents e r (SetSampleRateForNewEvents e r s) =
   SetSampleRateForNewEvents e r s"
  by (simp add: SetSampleRateForNewEvents_def SetSampleRateForGroup_flag cong: map_cong)

lemma bit_fold_or:
  "bit (fold (\<lambda>x (acc::u64). acc OR f x) xs a) n \<longleftrightarrow> bit a n \<or> (\<exists>x\<in>set xs. bit (f x) n)"
  by (induction xs arbitrary: a) (auto simp: bit_or_iff)

lemma bit_union_of_sample_types:
  "bit (union_of_sample_types s) n \<longleftrightarrow>
   (\<exists>sel\<in>set (all_selections s). bit (sample_type (event_attr sel)) n)"
  by (simp add: union_of_sample_types_def bit_fold_or)

lemma all_selections_UnionSampleType:
  "all_selections (UnionSampleType s) =
     map (\<lambda>sel. sel\<lparr>event_attr := (event_attr sel)\<lparr>sample_type := union_of_sample_types s\<rparr>\<rparr>)
         (all_selections s)"
  by (simp add: UnionSampleType_def all_selections_def Let_def map_concat comp_def)

lemma AddEventGroup_success:
  "AddEventGroup e names check s = (True, s') \<Longrightarrow>
   fst (assemble_group e names check s) \<and>
   s' = UnionSampleType (snd (assemble_group e names check s))"
  by (auto simp: AddEventGroup_def split: prod.splits bool.splits)


text \<open>
  C6. Calling \<^verbatim>\<open>SetSampleRateForNewEvents\<close> with the same rate any number of times, at
  least once, leaves the selection set (every field of every selection and group, and the
  remembered default) exactly as one call leaves it. The call never touches the opened
  descriptors, so this holds before they are opened as well as after.
\<close>

theorem set_sample_rate_for_new_events_idempotent:
  "((SetSampleRateForNewEvents e r) ^^ (Suc n)) s = SetSampleRateForNewEvents e r s"
  by (induction n) (simp_all add: SetSampleRateForNewEvents_twice)

text \<open>
  C9. A branch-sampling mask that is not zero and has none of the bits ANY, ANY_CALL,
  ANY_RETURN, IND_CALL makes \<^verbatim>\<open>SetBranchSampling\<close> return false and leaves the set as it
  was. A mask with one of these bits, when branch sampling is supported, makes it return
  true; every selection then has the mask as its \<^verbatim>\<open>branch_sample_type\<close> and
  \<^verbatim>\<open>PERF_SAMPLE_BRANCH_STACK\<close> added to its \<^verbatim>\<open>sample_type\<close>, and nothing else changes.
\<close>

theorem set_branch_sampling_mask:
  "(bst \<noteq> 0 \<and>
    bst AND (PERF_SAMPLE_BRANCH_ANY OR PERF_SAMPLE_BRANCH_ANY_CALL OR
             PERF_SAMPLE_BRANCH_ANY_RETURN OR PERF_SAMPLE_BRANCH_IND_CALL) = 0
    \<longrightarrow> SetBranchSampling e bst s = (False, s)) \<and>
   (bst AND (PERF_SAMPLE_BRANCH_ANY OR PERF_SAMPLE_BRANCH_ANY_CALL OR
             PERF_SAMPLE_BRANCH_ANY_RETURN OR PERF_SAMPLE_BRANCH_IND_CALL) \<noteq> 0 \<and>
    IsBranchSamplingSupported e
    \<longrightarrow> fst (SetBranchSampling e bst s) \<and>
        all_selections (snd (SetBranchSampling e bst s)) =
          map (\<lambda>sel. sel\<lparr>event_attr := (event_attr sel)
                 \<lparr>sample_type := sample_type (event_attr sel) OR PERF_SAMPLE_BRANCH_STACK,
                  branch_sample_type := bst\<rparr>\<rparr>)
              (all_selections s) \<and>
        (\<forall>sel\<in>set (all_selections (snd (SetBranchSampling e bst s))).
            branch_sample_type (event_attr sel) = bst \<and>
            sample_type (event_attr sel) AND PERF_SAMPLE_BRANCH_STACK = PERF_SAMPLE_BRANCH_STACK))"
proof (intro conjI impI)
  assume "bst \<noteq> 0 \<and>
    bst AND (PERF_SAMPLE_BRANCH_ANY OR PERF_SAMPLE_BRANCH_ANY_CALL OR
             PERF_SAMPLE_BRANCH_ANY_RETURN OR PERF_SAMPLE_BRANCH_IND_CALL) = 0"
  then show "SetBranchSampling e bst s = (False, s)"
    by (simp add: SetBranchSampling_def)
next
  assume a: "bst AND (PERF_SAMPLE_BRANCH_ANY OR PERF_SAMPLE_BRANCH_ANY_CALL OR
             PERF_SAMPLE_BRANCH_ANY_RETURN OR PERF_SAMPLE_BRANCH_IND_CALL) \<noteq> 0 \<and>
    IsBranchSamplingSupported e"
  then have nz: "bst \<noteq> 0" by auto
  show "fst (SetBranchSampling e bst s)"
    using a nz by (simp add: SetBranchSampling_def)
  show m: "all_selections (snd (SetBranchSampling e bst s)) =
          map (\<lambda>sel. sel\<lparr>event_attr := (event_attr sel)
                 \<lparr>sample_type := sample_type (event_attr sel) OR PERF_SAMPLE_BRANCH_STACK,
                  branch_sample_type := bst\<rparr>\<rparr>)
              (all_selections s)"
    using a nz by (simp add: SetBranchSampling_def all_selections_def map_concat comp_def Let_def)
  show "\<forall>sel\<in>set (all_selections (snd (SetBranchSampling e bst s))).
            branch_sample_type (event_attr sel) = bst \<and>
            sample_type (event_attr sel) AND PERF_SAMPLE_BRANCH_STACK = PERF_SAMPLE_BRANCH_STACK"
    unfolding m by (auto simp: bit_eq_iff bit_and_iff bit_or_iff)
qed

theorem set_branch_sampling_mask_witness:
  "SetBranchSampling example_env 1
     (snd (AddEventGroup example_env [''cpu-cycles''] True (EventSelectionSet_init False)))
   = (False, snd (AddEventGroup example_env [''cpu-cycles''] True (EventSelectionSet_init False))) \<and>
   fst (SetBranchSampling example_env 8
     (snd (AddEventGroup example_env [''cpu-cycles''] True (EventSelectionSet_init False)))) \<and>
   map (\<lambda>sel. (branch_sample_type (event_attr sel), sample_type (event_attr sel)))
     (all_selections (snd (SetBranchSampling example_env 8
        (snd (AddEventGroup example_env [''cpu-cycles''] True (EventSelectionSet_init False))))))
   = [(8, 2049)]"
proof -
  let ?s = "snd (AddEventGroup example_env [''cpu-cycles''] True (EventSelectionSet_init False))"
  let ?m = "PERF_SAMPLE_BRANCH_ANY OR PERF_SAMPLE_BRANCH_ANY_CALL OR
            PERF_SAMPLE_BRANCH_ANY_RETURN OR PERF_SAMPLE_BRANCH_IND_CALL"
  have m: "?m = 120"
    by (simp add: PERF_SAMPLE_BRANCH_ANY_def PERF_SAMPLE_BRANCH_ANY_CALL_def
        PERF_SAMPLE_BRANCH_ANY_RETURN_def PERF_SAMPLE_BRANCH_IND_CALL_def)
  have h1: "(1::u64) \<noteq> 0 \<and> 1 AND ?m = 0" unfolding m by simp
  have h2: "(8::u64) AND ?m \<noteq> 0 \<and> IsBranchSamplingSupported example_env"
    unfolding m
    by (simp add: example_env_def IsBranchSamplingSupported_def example_find_def
        example_types_def hw_type_def sw_type_def)
  have sels: "map (\<lambda>sel. sample_type (event_attr sel)) (all_selections ?s) = [1]"
    by (simp add: example_defs Let_def)
  have "map (\<lambda>sel. (branch_sample_type (event_attr sel), sample_type (event_attr sel)))
          (map (\<lambda>sel. sel\<lparr>event_attr := (event_attr sel)
                 \<lparr>sample_type := sample_type (event_attr sel) OR PERF_SAMPLE_BRANCH_STACK,
                  branch_sample_type := 8\<rparr>\<rparr>) (all_selections ?s))
        = map (\<lambda>t. (8, t OR PERF_SAMPLE_BRANCH_STACK))
            (map (\<lambda>sel. sample_type (event_attr sel)) (all_selections ?s))"
    by (simp add: comp_def)
  also have "\<dots> = [(8, 2049)]"
    unfolding sels by (simp add: PERF_SAMPLE_BRANCH_STACK_def)
  finally show ?thesis
    using set_branch_sampling_mask [of 1 example_env ?s]
      set_branch_sampling_mask [of 8 example_env ?s] h1 h2
    by simp
qed

text \<open>
  C7. After a successful \<^verbatim>\<open>AddEventGroup\<close> every selection of the set has the same
  \<^verbatim>\<open>sample_type\<close>: the bitwise OR of the sample types that all the selections had when
  the new group had just been appended, before the union step. A bit is set in it exactly
  when some selection had it set then. The union step changes no other field and no
  selection count.
\<close>

theorem add_event_group_unions_sample_type:
  "AddEventGroup e names check s = (True, s') \<Longrightarrow>
   fst (assemble_group e names check s) \<and>
   length (all_selections s') = length (all_selections (snd (assemble_group e names check s))) \<and>
   (\<forall>sel\<in>set (all_selections s').
      sample_type (event_attr sel) = union_of_sample_types (snd (assemble_group e names check s)) \<and>
      (\<forall>n. bit (sample_type (event_attr sel)) n \<longleftrightarrow>
           (\<exists>old\<in>set (all_selections (snd (assemble_group e names check s))).
               bit (sample_type (event_attr old)) n)))"
proof -
  assume a: "AddEventGroup e names check s = (True, s')"
  let ?pre = "snd (assemble_group e names check s)"
  from AddEventGroup_success [OF a]
  have ok: "fst (assemble_group e names check s)" and s': "s' = UnionSampleType ?pre"
    by simp_all
  have sels: "all_selections s' =
     map (\<lambda>sel. sel\<lparr>event_attr := (event_attr sel)\<lparr>sample_type := union_of_sample_types ?pre\<rparr>\<rparr>)
         (all_selections ?pre)"
    by (simp add: s' all_selections_UnionSampleType)
  have "\<forall>sel\<in>set (all_selections s'). sample_type (event_attr sel) = union_of_sample_types ?pre"
    by (auto simp: sels)
  then show ?thesis using ok sels by (simp add: bit_union_of_sample_types)
qed

theorem add_event_group_unions_sample_type_witness:
  "AddEventGroup example_env [''instructions''] True
     (snd (AddEventGroup example_env [''cpu-cycles''] True (EventSelectionSet_init True)))
   = (True, snd (AddEventGroup example_env [''instructions''] True
     (snd (AddEventGroup example_env [''cpu-cycles''] True (EventSelectionSet_init True))))) \<and>
   map (\<lambda>sel. sample_type (event_attr sel))
     (all_selections (snd (assemble_group example_env [''instructions''] True
        (snd (AddEventGroup example_env [''cpu-cycles''] True (EventSelectionSet_init True))))))
   = [1, 2] \<and>
   map (\<lambda>sel. sample_type (event_attr sel))
     (all_selections (snd (AddEventGroup example_env [''instructions''] True
        (snd (AddEventGroup example_env [''cpu-cycles''] True (EventSelectionSet_init True))))))
   = [3, 3]"
proof -
  let ?s1 = "snd (AddEventGroup example_env [''cpu-cycles''] True (EventSelectionSet_init True))"
  let ?r = "AddEventGroup example_env [''instructions''] True ?s1"
  have ok: "?r = (True, snd ?r)" by (simp add: example_defs Let_def)
  have pre: "map (\<lambda>sel. sample_type (event_attr sel))
     (all_selections (snd (assemble_group example_env [''instructions''] True ?s1))) = [1, 2]"
    by (simp add: example_defs Let_def)
  have u: "union_of_sample_types (snd (assemble_group example_env [''instructions''] True ?s1)) = 3"
    by (simp add: example_defs Let_def)
  have len: "length (all_selections (snd (assemble_group example_env [''instructions''] True ?s1)))
             = 2"
    using arg_cong [OF pre, of length] by simp
  from add_event_group_unions_sample_type [OF ok] u
  have "length (all_selections (snd ?r)) = 2"
    and "\<forall>sel\<in>set (all_selections (snd ?r)). sample_type (event_attr sel) = 3"
    using len by simp_all
  then have "map (\<lambda>sel. sample_type (event_attr sel)) (all_selections (snd ?r)) = [3, 3]"
    by (cases "all_selections (snd ?r)"; cases "tl (all_selections (snd ?r))") auto
  with pre ok show ?thesis by simp
qed




text \<open>
  Where uniqueness of the names does hold: a successful \<^verbatim>\<open>AddEventGroup\<close> appends the
  names of its selections, none of which was in the set before; so the names stay
  pairwise distinct when the names given in the call are. \<^verbatim>\<open>AddCounters\<close> appends each
  selection before it builds the next, and rejects a name repeated within the call.
\<close>

lemma BuildAndCheckEventSelection_Some:
  "BuildAndCheckEventSelection e s name fe check = Some sel \<Longrightarrow>
   ParseEventType e name = Some (event_type_modifier sel) \<and>
   etm_name (event_type_modifier sel) \<notin> set (selection_names s)"
  by (auto simp: BuildAndCheckEventSelection_def Let_def split: option.splits if_splits)

lemma add_group_loop_names:
  "add_group_loop e s check names acc fe fig aux = (Some (sels, x), aux') \<Longrightarrow>
   map (\<lambda>sel. etm_name (event_type_modifier sel)) sels =
     map (\<lambda>sel. etm_name (event_type_modifier sel)) acc @ map (parsed_name e) names \<and>
   (\<forall>n\<in>set names. parsed_name e n \<notin> set (selection_names s))"
proof (induction names arbitrary: acc fe fig aux)
  case Nil
  then show ?case by simp
next
  case (Cons name rest)
  from Cons.prems obtain sel where
    b: "BuildAndCheckEventSelection e s name fe check = Some sel"
    by (auto split: option.splits)
  define sel' where "sel' = (if fig \<and> IsPmuEvent (event_type (event_type_modifier sel))
                 then sel\<lparr>allowed_cpus := GetPmuCpumask (event_type (event_type_modifier sel))\<rparr>
                 else sel)"
  define aux1 where "aux1 = (if IsEtmEventType e (attr_type (event_attr sel)) then True else aux)"
  have rec: "add_group_loop e s check rest (acc @ [sel']) False False aux1 = (Some (sels, x), aux')"
    using Cons.prems b by (simp add: Let_def sel'_def aux1_def)
  have n: "etm_name (event_type_modifier sel') = parsed_name e name"
    "parsed_name e name \<notin> set (selection_names s)"
    using BuildAndCheckEventSelection_Some [OF b] by (auto simp: sel'_def parsed_name_def)
  from Cons.IH [OF rec] n show ?case by simp
qed

lemma selection_names_UnionSampleType:
  "selection_names (UnionSampleType s) = selection_names s"
  by (simp add: selection_names_def all_selections_UnionSampleType comp_def)

lemma AddEventGroup_names:
  assumes "AddEventGroup e names check s = (True, s')"
  shows "selection_names s' = selection_names s @ map (parsed_name e) names \<and>
         (\<forall>n\<in>set names. parsed_name e n \<notin> set (selection_names s))"
proof -
  from AddEventGroup_success [OF assms]
  have ok: "fst (assemble_group e names check s)"
    and s': "s' = UnionSampleType (snd (assemble_group e names check s))" by simp_all
  obtain r aux where l: "add_group_loop e s check names [] (groups s = []) True (has_aux_trace s)
                          = (r, aux)"
    by (cases "add_group_loop e s check names [] (groups s = []) True (has_aux_trace s)") simp
  from ok l obtain sels x where r: "r = Some (sels, x)"
    by (cases r) (auto simp: assemble_group_def)
  from add_group_loop_names [OF l [unfolded r]]
  have n: "map (\<lambda>sel. etm_name (event_type_modifier sel)) sels = map (parsed_name e) names"
    and d: "\<forall>n\<in>set names. parsed_name e n \<notin> set (selection_names s)" by simp_all
  have "selection_names (snd (assemble_group e names check s)) =
        selection_names s @ map (\<lambda>sel. etm_name (event_type_modifier sel)) sels"
    using l r
    by (auto simp: assemble_group_def selection_names_def all_selections_def Let_def
          SetSampleRateForGroup_def comp_def split: option.splits)
  with n d s' show ?thesis by (simp add: selection_names_UnionSampleType)
qed

lemma AddEventGroup_keeps_names_distinct:
  assumes "AddEventGroup e names check s = (True, s')"
    and "distinct (selection_names s)" and "distinct (map (parsed_name e) names)"
  shows "distinct (selection_names s')"
  using AddEventGroup_names [OF assms(1)] assms(2,3) by auto

lemma add_counters_rejects_repeated_name:
  "map_option fst (AddCounters example_env [''instructions'', ''instructions'']
     (snd (AddEventGroup example_env [''cpu-cycles''] True (EventSelectionSet_init False))))
   = Some False \<and>
   map_option fst (AddCounters example_env [''instructions'']
     (snd (AddEventGroup example_env [''cpu-cycles''] True (EventSelectionSet_init False))))
   = Some True"
  by (simp add: AddCounters_def example_defs Let_def)

text \<open>
  C2 at the input \<^verbatim>\<open>--group cpu-cycles,cpu-cycles\<close> on an empty set: the uniqueness
  check of \<^verbatim>\<open>BuildAndCheckEventSelection\<close> looks only at \<^verbatim>\<open>groups_\<close>, which does not yet
  hold the group under construction, so the call succeeds and the set holds the name twice.
\<close>

theorem duplicate_name_in_one_group_accepted:
  "fst (AddEventGroup example_env [''cpu-cycles'', ''cpu-cycles''] True
          (EventSelectionSet_init True)) \<and>
   selection_names (snd (AddEventGroup example_env [''cpu-cycles'', ''cpu-cycles''] True
      (EventSelectionSet_init True))) = [''cpu-cycles'', ''cpu-cycles''] \<and>
   \<not> distinct (selection_names (snd (AddEventGroup example_env [''cpu-cycles'', ''cpu-cycles''] True
      (EventSelectionSet_init True))))"
  by (simp add: example_defs Let_def)

section \<open>Facts about the generated summaries\<close>

declare auto_generate_loop.simps [simp del]

lemma FindSummary_None:
  "(FindSummary xs tn md th c = None) \<longleftrightarrow>
   (\<forall>s\<in>set xs. \<not> (type_name s = tn \<and> modifier_of s = md \<and> thread s = th \<and> cpu s = c))"
  by (auto simp: FindSummary_def find_None_iff)

lemma FindSummary_append:
  "FindSummary (xs @ ys) tn md th c =
     (case FindSummary xs tn md th c of Some s \<Rightarrow> Some s | None \<Rightarrow> FindSummary ys tn md th c)"
  unfolding FindSummary_def by (induction xs) auto

lemma loop_past_end: "length xs \<le> i \<Longrightarrow> auto_generate_loop st i xs = xs"
  by (simp add: auto_generate_loop.simps)

lemma generate_for_empty_modifier: "modifier_of s \<noteq> ''u'' \<Longrightarrow> generate_for st xs s = xs"
  by (simp add: generate_for_def)

lemma loop_tail_noop:
  "\<forall>j. i \<le> j \<and> j < length xs \<longrightarrow> modifier_of (xs ! j) \<noteq> ''u'' \<Longrightarrow> auto_generate_loop st i xs = xs"
proof (induction st i xs rule: auto_generate_loop.induct)
  case (1 st i xs)
  show ?case
  proof (cases "i < length xs")
    case True
    then have g: "generate_for st xs (xs ! i) = xs"
      using 1(2) by (simp add: generate_for_empty_modifier)
    have "auto_generate_loop st (i + 1) xs = xs"
      using 1(1)[OF True] 1(2) g by simp
    then show ?thesis using True g by (subst auto_generate_loop.simps) simp
  next
    case False
    then show ?thesis by (simp add: loop_past_end)
  qed
qed

lemma generate_for_shape:
  "\<exists>more. generate_for st xs s = xs @ more \<and> (\<forall>a\<in>set more. modifier_of a = [])"
  using generate_for_cases [of st xs s] by auto

lemma loop_is_fold:
  "i \<le> length xs0 \<Longrightarrow> \<forall>a\<in>set added. modifier_of a = [] \<Longrightarrow>
   auto_generate_loop st i (xs0 @ added) = fold (\<lambda>s cur. generate_for st cur s) (drop i xs0) (xs0 @ added)"
proof (induction "length xs0 - i" arbitrary: i added)
  case 0
  then have "i = length xs0" by simp
  moreover have "auto_generate_loop st (length xs0) (xs0 @ added) = xs0 @ added"
    using 0(3) by (intro loop_tail_noop) (auto simp: nth_append)
  ultimately show ?case by simp
next
  case (Suc n)
  then have lt: "i < length xs0" by simp
  obtain more where m: "generate_for st (xs0 @ added) (xs0 ! i) = (xs0 @ added) @ more"
    and me: "\<forall>a\<in>set more. modifier_of a = []"
    using generate_for_shape by blast
  have d: "drop i xs0 = xs0 ! i # drop (Suc i) xs0"
    using lt by (simp add: Cons_nth_drop_Suc)
  have "auto_generate_loop st i (xs0 @ added) = auto_generate_loop st (Suc i) (xs0 @ (added @ more))"
    using lt m by (subst auto_generate_loop.simps) (simp add: nth_append)
  also have "\<dots> = fold (\<lambda>s cur. generate_for st cur s) (drop (Suc i) xs0) (xs0 @ (added @ more))"
  proof (rule Suc(1))
    show "n = length xs0 - Suc i" using Suc(2) by arith
    show "Suc i \<le> length xs0" using lt by simp
    show "\<forall>a\<in>set (added @ more). modifier_of a = []" using Suc(4) me by auto
  qed
  finally show ?case using m by (simp add: d)
qed

lemma AutoGenerateSummaries_fold:
  "AutoGenerateSummaries st xs = fold (\<lambda>s cur. generate_for st cur s) xs xs"
  using loop_is_fold [of 0 xs "[]" st] by (simp add: AutoGenerateSummaries_def)


lemma generate_for_result:
  "generate_for st xs s = xs \<or>
   (\<exists>other. modifier_of s = ''u'' \<and>
      FindSummary xs (type_name s) ''k'' (thread s) (cpu s) = Some other \<and> st other s \<and>
      FindSummary xs (type_name s) [] (thread s) (cpu s) = None \<and>
      generate_for st xs s =
        xs @ [\<lparr>type_name = type_name s, modifier_of = [], group_id = group_id s,
               thread = thread s, cpu = cpu s, count = count s + count other,
               runtime_in_ns = runtime_in_ns s, scale = scale s, auto_generated = True\<rparr>])"
  by (auto simp: generate_for_def split: option.splits)

lemma fold_generate_prefix:
  "\<exists>more. fold (\<lambda>s cur. generate_for st cur s) ys cur = cur @ more \<and>
          (\<forall>a\<in>set more. modifier_of a = [] \<and> auto_generated a)"
proof (induction ys arbitrary: cur)
  case Nil
  show ?case by simp
next
  case (Cons y ys)
  from generate_for_result [of st cur y]
  obtain m1 where m1: "generate_for st cur y = cur @ m1"
    and p1: "\<forall>a\<in>set m1. modifier_of a = [] \<and> auto_generated a"
    by (elim disjE exE conjE) (fastforce, force)
  from Cons.IH [of "cur @ m1"]
  obtain m2 where m2: "fold (\<lambda>s cur. generate_for st cur s) ys (cur @ m1) = (cur @ m1) @ m2"
    and p2: "\<forall>a\<in>set m2. modifier_of a = [] \<and> auto_generated a"
    by blast
  have "fold (\<lambda>s cur. generate_for st cur s) (y # ys) cur = cur @ (m1 @ m2)"
    using m1 m2 by simp
  moreover have "\<forall>a\<in>set (m1 @ m2). modifier_of a = [] \<and> auto_generated a"
    using p1 p2 by auto
  ultimately show ?case by blast
qed

lemma fold_generate_keeps:
  assumes "\<exists>s\<in>set cur. type_name s = tn \<and> modifier_of s = [] \<and> thread s = th \<and> cpu s = c"
  shows "filter (\<lambda>a. type_name a = tn \<and> modifier_of a = [] \<and> thread a = th \<and> cpu a = c)
           (fold (\<lambda>s cur. generate_for st cur s) ys cur) =
         filter (\<lambda>a. type_name a = tn \<and> modifier_of a = [] \<and> thread a = th \<and> cpu a = c) cur"
  using assms
proof (induction ys arbitrary: cur)
  case Nil
  show ?case by simp
next
  case (Cons y ys)
  let ?P = "\<lambda>a. type_name a = tn \<and> modifier_of a = [] \<and> thread a = th \<and> cpu a = c"
  have step: "filter ?P (generate_for st cur y) = filter ?P cur"
    using generate_for_result [of st cur y] Cons.prems
    by (auto simp: FindSummary_None)
  have ex: "\<exists>s\<in>set (generate_for st cur y). ?P s"
    using generate_for_result [of st cur y] Cons.prems by auto
  show ?case using Cons.IH [OF ex] step by simp
qed

lemma fold_generate_adds:
  assumes "s \<in> set ys" and "modifier_of s = ''u''"
    and "FindSummary cur (type_name s) ''k'' (thread s) (cpu s) = Some other"
    and "st other s"
    and "FindSummary cur (type_name s) [] (thread s) (cpu s) = None"
  shows "\<exists>u1. u1 \<in> set ys \<and> modifier_of u1 = ''u'' \<and> type_name u1 = type_name s \<and>
           thread u1 = thread s \<and> cpu u1 = cpu s \<and> st other u1 \<and>
           \<lparr>type_name = type_name s, modifier_of = [], group_id = group_id u1,
            thread = thread s, cpu = cpu s, count = count u1 + count other,
            runtime_in_ns = runtime_in_ns u1, scale = scale u1, auto_generated = True\<rparr>
           \<in> set (drop (length cur) (fold (\<lambda>s cur. generate_for st cur s) ys cur))"
  using assms
proof (induction ys arbitrary: cur)
  case Nil
  then show ?case by simp
next
  case (Cons y ys)
  let ?gen = "\<lambda>s cur. generate_for st cur s"
  show ?case
  proof (cases "modifier_of y = ''u'' \<and> type_name y = type_name s \<and> thread y = thread s \<and>
                cpu y = cpu s \<and> st other y")
    case True
    let ?a = "\<lparr>type_name = type_name s, modifier_of = [], group_id = group_id y,
            thread = thread s, cpu = cpu s, count = count y + count other,
            runtime_in_ns = runtime_in_ns y, scale = scale y, auto_generated = True\<rparr>"
    have g: "generate_for st cur y = cur @ [?a]"
      using True Cons.prems(3,5) by (simp add: generate_for_def)
    obtain more where m: "fold ?gen ys (cur @ [?a]) = (cur @ [?a]) @ more"
      using fold_generate_prefix by blast
    have "?a \<in> set (drop (length cur) (fold ?gen (y # ys) cur))"
      using g m by simp
    with True show ?thesis by (intro exI [of _ y]) simp
  next
    case False
    then have sin: "s \<in> set ys" using Cons.prems(1,2,4) by auto
    obtain m1 where m1: "generate_for st cur y = cur @ m1"
      and k1: "\<forall>a\<in>set m1. \<not> (type_name a = type_name s \<and> thread a = thread s \<and> cpu a = cpu s)"
      using generate_for_result [of st cur y] False Cons.prems(3)
      by (elim disjE exE conjE) (fastforce, force)
    have fk: "FindSummary (cur @ m1) (type_name s) ''k'' (thread s) (cpu s) = Some other"
      using Cons.prems(3) by (simp add: FindSummary_append)
    have fe: "FindSummary (cur @ m1) (type_name s) [] (thread s) (cpu s) = None"
      using Cons.prems(5) k1 by (auto simp: FindSummary_None)
    from Cons.IH [OF sin Cons.prems(2) fk Cons.prems(4) fe]
    obtain u1 where u1: "u1 \<in> set ys" "modifier_of u1 = ''u''" "type_name u1 = type_name s"
           "thread u1 = thread s" "cpu u1 = cpu s" "st other u1"
      and a: "\<lparr>type_name = type_name s, modifier_of = [], group_id = group_id u1,
            thread = thread s, cpu = cpu s, count = count u1 + count other,
            runtime_in_ns = runtime_in_ns u1, scale = scale u1, auto_generated = True\<rparr>
           \<in> set (drop (length (cur @ m1)) (fold ?gen ys (cur @ m1)))"
      by blast
    have "set (drop (length (cur @ m1)) (fold ?gen ys (cur @ m1)))
          \<subseteq> set (drop (length cur) (fold ?gen ys (cur @ m1)))"
      by (rule set_drop_subset_set_drop) simp
    with a have "\<lparr>type_name = type_name s, modifier_of = [], group_id = group_id u1,
            thread = thread s, cpu = cpu s, count = count u1 + count other,
            runtime_in_ns = runtime_in_ns u1, scale = scale u1, auto_generated = True\<rparr>
           \<in> set (drop (length cur) (fold ?gen (y # ys) cur))"
      using m1 by auto
    with u1 show ?thesis by (intro exI [of _ u1]) simp
  qed
qed

text \<open>
  C10. \<^verbatim>\<open>AutoGenerateSummaries\<close> keeps the summaries it was given, in their places, and
  when the list holds a summary with the empty modifier for a (type name, thread, cpu),
  the summaries with the empty modifier for that key are afterwards the same as before:
  none is generated for it, whatever summaries with modifiers u and k are present and
  whenever they were monitored.
\<close>

theorem auto_generate_keeps_existing_summaries:
  assumes "s \<in> set summaries" and "modifier_of s = []"
  shows "take (length summaries) (AutoGenerateSummaries same_time summaries) = summaries \<and>
         filter (\<lambda>a. type_name a = type_name s \<and> modifier_of a = [] \<and> thread a = thread s \<and>
                      cpu a = cpu s) (AutoGenerateSummaries same_time summaries) =
         filter (\<lambda>a. type_name a = type_name s \<and> modifier_of a = [] \<and> thread a = thread s \<and>
                      cpu a = cpu s) summaries"
proof -
  obtain more where "AutoGenerateSummaries same_time summaries = summaries @ more"
    using fold_generate_prefix [of same_time summaries summaries]
    by (auto simp: AutoGenerateSummaries_fold)
  then have "take (length summaries) (AutoGenerateSummaries same_time summaries) = summaries"
    by simp
  moreover have "\<exists>x\<in>set summaries. type_name x = type_name s \<and> modifier_of x = [] \<and>
                    thread x = thread s \<and> cpu x = cpu s"
    using assms by blast
  then have "filter (\<lambda>a. type_name a = type_name s \<and> modifier_of a = [] \<and> thread a = thread s \<and>
                      cpu a = cpu s) (AutoGenerateSummaries same_time summaries) =
         filter (\<lambda>a. type_name a = type_name s \<and> modifier_of a = [] \<and> thread a = thread s \<and>
                      cpu a = cpu s) summaries"
    unfolding AutoGenerateSummaries_fold by (rule fold_generate_keeps)
  ultimately show ?thesis by simp
qed

lemmas summary_defs = example_summary_def AutoGenerateSummaries_fold generate_for_def FindSummary_def

theorem auto_generate_keeps_existing_summaries_witness:
  "example_summary ''cpu-cycles'' [] 9 \<in>
     set [example_summary ''cpu-cycles'' ''u'' 3, example_summary ''cpu-cycles'' ''k'' 4,
          example_summary ''cpu-cycles'' [] 9] \<and>
   AutoGenerateSummaries (\<lambda>a b. True)
     [example_summary ''cpu-cycles'' ''u'' 3, example_summary ''cpu-cycles'' ''k'' 4,
      example_summary ''cpu-cycles'' [] 9] =
     [example_summary ''cpu-cycles'' ''u'' 3, example_summary ''cpu-cycles'' ''k'' 4,
      example_summary ''cpu-cycles'' [] 9] \<and>
   filter (\<lambda>a. type_name a = ''cpu-cycles'' \<and> modifier_of a = [] \<and> thread a = None \<and> cpu a = - 1)
     (AutoGenerateSummaries (\<lambda>a b. True)
       [example_summary ''cpu-cycles'' ''u'' 3, example_summary ''cpu-cycles'' ''k'' 4,
        example_summary ''cpu-cycles'' [] 9]) = [example_summary ''cpu-cycles'' [] 9]"
proof -
  let ?xs = "[example_summary ''cpu-cycles'' ''u'' 3, example_summary ''cpu-cycles'' ''k'' 4,
              example_summary ''cpu-cycles'' [] 9]"
  have h1: "example_summary ''cpu-cycles'' [] 9 \<in> set ?xs" by simp
  have h2: "modifier_of (example_summary ''cpu-cycles'' [] 9) = []"
    by (simp add: example_summary_def)
  have run: "AutoGenerateSummaries (\<lambda>a b. True) ?xs = ?xs"
    by (simp add: summary_defs)
  from auto_generate_keeps_existing_summaries [OF h1 h2, of "\<lambda>a b. True"] h1 run
  show ?thesis by (simp add: example_summary_def)
qed

text \<open>
  C8, as the code has it. Let \<open>s\<close> be a summary with modifier u, let the first summary
  with modifier k and the same type name, thread and cpu be \<open>other\<close>, monitored at the
  same time as \<open>s\<close>, and let the list hold no summary with the empty modifier for that
  key. Then \<^verbatim>\<open>AutoGenerateSummaries\<close> appends a summary for that key with the empty
  modifier, marked \<^verbatim>\<open>auto_generated\<close>, whose count is the sum modulo \<open>2^64\<close> of the count
  of \<open>other\<close> and the count of a summary \<open>u1\<close> with modifier u for the key that was
  monitored at the same time as \<open>other\<close>; \<open>u1\<close> is \<open>s\<close> when \<open>s\<close> is the only summary with
  modifier u for the key.
\<close>

theorem auto_generate_adds_sum_mod_2_64:
  assumes "s \<in> set summaries" and "modifier_of s = ''u''"
    and "FindSummary summaries (type_name s) ''k'' (thread s) (cpu s) = Some other"
    and "same_time other s"
    and "FindSummary summaries (type_name s) [] (thread s) (cpu s) = None"
  shows "\<exists>a u1. a \<in> set (drop (length summaries) (AutoGenerateSummaries same_time summaries)) \<and>
           u1 \<in> set summaries \<and> modifier_of u1 = ''u'' \<and> type_name u1 = type_name s \<and>
           thread u1 = thread s \<and> cpu u1 = cpu s \<and> same_time other u1 \<and>
           type_name a = type_name s \<and> modifier_of a = [] \<and> thread a = thread s \<and>
           cpu a = cpu s \<and> auto_generated a \<and>
           unat (count a) = (unat (count u1) + unat (count other)) mod 2 ^ 64 \<and>
           ((\<forall>u\<in>set summaries. modifier_of u = ''u'' \<and> type_name u = type_name s \<and>
                thread u = thread s \<and> cpu u = cpu s \<longrightarrow> u = s) \<longrightarrow> u1 = s)"
proof -
  from fold_generate_adds [where st = same_time and cur = summaries, OF assms]
  obtain u1 where u1: "u1 \<in> set summaries" "modifier_of u1 = ''u''" "type_name u1 = type_name s"
           "thread u1 = thread s" "cpu u1 = cpu s" "same_time other u1"
    and a: "\<lparr>type_name = type_name s, modifier_of = [], group_id = group_id u1,
            thread = thread s, cpu = cpu s, count = count u1 + count other,
            runtime_in_ns = runtime_in_ns u1, scale = scale u1, auto_generated = True\<rparr>
           \<in> set (drop (length summaries) (AutoGenerateSummaries same_time summaries))"
    unfolding AutoGenerateSummaries_fold by blast
  let ?a = "\<lparr>type_name = type_name s, modifier_of = [], group_id = group_id u1,
            thread = thread s, cpu = cpu s, count = count u1 + count other,
            runtime_in_ns = runtime_in_ns u1, scale = scale u1, auto_generated = True\<rparr>"
  have c: "unat (count ?a) = (unat (count u1) + unat (count other)) mod 2 ^ 64"
    by (simp add: unat_word_ariths)
  show ?thesis
    apply (rule exI [of _ ?a])
    apply (rule exI [of _ u1])
    using a u1 c by auto
qed

theorem auto_generate_adds_sum_mod_2_64_witness:
  "\<exists>a\<in>set (drop 2 (AutoGenerateSummaries (\<lambda>a b. True)
       [example_summary ''cpu-cycles'' ''u'' 3, example_summary ''cpu-cycles'' ''k'' 4])).
     type_name a = ''cpu-cycles'' \<and> modifier_of a = [] \<and> auto_generated a \<and> unat (count a) = 7"
proof -
  let ?u = "example_summary ''cpu-cycles'' ''u'' 3"
  let ?k = "example_summary ''cpu-cycles'' ''k'' 4"
  have h1: "?u \<in> set [?u, ?k]" by simp
  have h2: "modifier_of ?u = ''u''" by (simp add: example_summary_def)
  have h3: "FindSummary [?u, ?k] (type_name ?u) ''k'' (thread ?u) (cpu ?u) = Some ?k"
    by (simp add: FindSummary_def example_summary_def)
  have h4: "(\<lambda>a b. True) ?k ?u" by simp
  have h5: "FindSummary [?u, ?k] (type_name ?u) [] (thread ?u) (cpu ?u) = None"
    by (simp add: FindSummary_def example_summary_def)
  from auto_generate_adds_sum_mod_2_64 [where s = ?u and summaries = "[?u, ?k]" and other = ?k
             and same_time = "\<lambda>a b. True", OF h1 h2 h3 h4 h5]
  obtain a u1 where a: "a \<in> set (drop (length [?u, ?k])
                                (AutoGenerateSummaries (\<lambda>a b. True) [?u, ?k]))"
    and u1: "u1 \<in> set [?u, ?k]" "modifier_of u1 = ''u''"
    and p: "type_name a = type_name ?u" "modifier_of a = []" "auto_generated a"
       "unat (count a) = (unat (count u1) + unat (count ?k)) mod 2 ^ 64"
    by blast
  have "u1 = ?u" using u1 by (auto simp: example_summary_def)
  then have "unat (count a) = 7" using p(4) by (simp add: example_summary_def)
  moreover have "type_name a = ''cpu-cycles''" using p(1) by (simp add: example_summary_def)
  moreover have "a \<in> set (drop 2 (AutoGenerateSummaries (\<lambda>a b. True) [?u, ?k]))"
    using a by (simp add: numeral_2_eq_2)
  ultimately show ?thesis using p(2,3) by blast
qed

text \<open>
  C8 as stated fails when the sum does not fit 64 bits: for counts \<open>2^63\<close> and \<open>2^63\<close> the
  generated summary has the count 0, not the integer sum \<open>2^64\<close>.
\<close>

theorem auto_generated_count_wraps:
  "map (\<lambda>a. (type_name a, modifier_of a, auto_generated a, unat (count a)))
     (drop 2 (AutoGenerateSummaries (\<lambda>a b. True)
        [example_summary ''cpu-cycles'' ''u'' (2 ^ 63), example_summary ''cpu-cycles'' ''k'' (2 ^ 63)]))
   = [(''cpu-cycles'', [], True, 0)] \<and>
   unat (count (example_summary ''cpu-cycles'' ''u'' (2 ^ 63))) +
   unat (count (example_summary ''cpu-cycles'' ''k'' (2 ^ 63))) = 2 ^ 64"
  by (simp add: summary_defs)


section \<open>Facts about opening event files\<close>

lemma OpenEventFile_Some:
  "OpenEventFile e w attr tid cp g name = (Some fd, w') \<Longrightarrow>
   fd_tid fd = tid \<and> fd_cpu fd = cp \<and> fd_leader fd = map_option perf_event_fd g \<and>
   fd_name fd = name \<and> perf_event_fd fd = length w \<and>
   w' = w @ [Call_OpenEventFile attr tid cp (map_option perf_event_fd g) name]"
  by (auto simp: OpenEventFile_def Let_def split: if_splits)

lemma OpenEventFile_world:
  "snd (OpenEventFile e w attr tid cp g name) =
   w @ [Call_OpenEventFile attr tid cp (map_option perf_event_fd g) name]"
  by (simp add: OpenEventFile_def Let_def)

lemma open_selections_with_leader:
  "open_selections e tid cp sels fds (Some g) w = (Some fds', w') \<Longrightarrow>
   \<exists>new. fds' = fds @ new \<and> length new = length sels \<and>
     (\<forall>fd\<in>set new. fd_tid fd = tid \<and> fd_cpu fd = cp \<and> fd_leader fd = Some (perf_event_fd g))"
proof (induction sels arbitrary: fds w)
  case Nil
  then show ?case by simp
next
  case (Cons sel sels)
  from Cons.prems obtain attr fd w1 where
    o: "OpenEventFile e w attr tid cp (Some g) (etm_name (event_type_modifier sel)) = (Some fd, w1)"
    and r: "open_selections e tid cp sels (fds @ [fd]) (Some g) w1 = (Some fds', w')"
    by (auto simp: Let_def split: if_splits prod.splits option.splits)
  from Cons.IH [OF r] obtain new where
    n: "fds' = (fds @ [fd]) @ new" "length new = length sels"
       "\<forall>fd\<in>set new. fd_tid fd = tid \<and> fd_cpu fd = cp \<and> fd_leader fd = Some (perf_event_fd g)"
    by blast
  from OpenEventFile_Some [OF o]
  have "fd_tid fd = tid \<and> fd_cpu fd = cp \<and> fd_leader fd = Some (perf_event_fd g)" by simp
  with n show ?case by (intro exI [of _ "fd # new"]) simp
qed

lemma open_selections_first:
  "open_selections e tid cp (sel # rest) [] None w = (Some fds', w') \<Longrightarrow>
   \<exists>first others. fds' = first # others \<and> length others = length rest \<and>
     fd_tid first = tid \<and> fd_cpu first = cp \<and> fd_leader first = None \<and>
     (\<forall>fd\<in>set others. fd_tid fd = tid \<and> fd_cpu fd = cp \<and>
                        fd_leader fd = Some (perf_event_fd first))"
proof -
  assume a: "open_selections e tid cp (sel # rest) [] None w = (Some fds', w')"
  then obtain attr fd w1 where
    o: "OpenEventFile e w attr tid cp None (etm_name (event_type_modifier sel)) = (Some fd, w1)"
    and r: "open_selections e tid cp rest [fd] (Some fd) w1 = (Some fds', w')"
    by (auto simp: Let_def split: if_splits prod.splits option.splits)
  from open_selections_with_leader [OF r] obtain new where
    n: "fds' = [fd] @ new" "length new = length rest"
       "\<forall>x\<in>set new. fd_tid x = tid \<and> fd_cpu x = cp \<and> fd_leader x = Some (perf_event_fd fd)"
    by blast
  from OpenEventFile_Some [OF o]
  have "fd_tid fd = tid \<and> fd_cpu fd = cp \<and> fd_leader fd = None" by simp
  with n show ?thesis by auto
qed

lemma open_selections_fds:
  "open_selections e tid cp sels [] None w = (Some fds, w') \<Longrightarrow>
   length fds = length sels \<and>
   (\<forall>fd\<in>set fds. fd_tid fd = tid \<and> fd_cpu fd = cp) \<and>
   (\<forall>i<length fds. fd_leader (fds ! i) = (if i = 0 then None else Some (perf_event_fd (fds ! 0))))"
proof (cases sels)
  case Nil
  assume "open_selections e tid cp sels [] None w = (Some fds, w')"
  with Nil show ?thesis by simp
next
  case (Cons sel rest)
  assume "open_selections e tid cp sels [] None w = (Some fds, w')"
  with Cons obtain first others where
    f: "fds = first # others" "length others = length rest"
     "fd_tid first = tid" "fd_cpu first = cp" "fd_leader first = None"
     "\<forall>fd\<in>set others. fd_tid fd = tid \<and> fd_cpu fd = cp \<and>
                        fd_leader fd = Some (perf_event_fd first)"
    using open_selections_first by blast
  have "\<forall>i<length fds. fd_leader (fds ! i) = (if i = 0 then None else Some (perf_event_fd (fds ! 0)))"
  proof (intro allI impI)
    fix i assume "i < length fds"
    then show "fd_leader (fds ! i) = (if i = 0 then None else Some (perf_event_fd (fds ! 0)))"
      using f by (cases i) auto
  qed
  with f Cons show ?thesis by auto
qed

lemma OpenEventFilesOnGroup_transaction:
  "OpenEventFilesOnGroup e grp tid cp w = (ok, grp', w') \<Longrightarrow>
   (\<not> ok \<longrightarrow> grp' = grp) \<and>
   (ok \<longrightarrow> (\<exists>fds. length fds = length (selections grp) \<and>
       grp' = grp\<lparr>selections :=
                 map2 (\<lambda>selection event_fd.
                         selection\<lparr>event_fds := event_fds selection @ [event_fd]\<rparr>)
                      (selections grp) fds\<rparr> \<and>
       (\<forall>fd\<in>set fds. fd_tid fd = tid \<and> fd_cpu fd = cp) \<and>
       (\<forall>i<length fds. fd_leader (fds ! i) =
            (if i = 0 then None else Some (perf_event_fd (fds ! 0))))))"
proof (cases "open_selections e tid cp (selections grp) [] None w")
  case (Pair r w1)
  assume a: "OpenEventFilesOnGroup e grp tid cp w = (ok, grp', w')"
  show ?thesis
  proof (cases r)
    case None
    with Pair a show ?thesis by (simp add: OpenEventFilesOnGroup_def)
  next
    case (Some fds)
    with Pair a have ok: "ok" and g: "grp' = grp\<lparr>selections :=
                 map2 (\<lambda>selection event_fd.
                         selection\<lparr>event_fds := event_fds selection @ [event_fd]\<rparr>)
                      (selections grp) fds\<rparr>"
      by (auto simp: OpenEventFilesOnGroup_def)
    from open_selections_fds [of e tid cp "selections grp" w fds w1] Pair Some
    show ?thesis using ok g by blast
  qed
qed

lemma OpenEventFilesOnGroup_counts:
  "OpenEventFilesOnGroup e grp tid cp w = (ok, grp', w') \<Longrightarrow>
   fd_counts grp' = map (\<lambda>k. k + (if ok then 1 else 0)) (fd_counts grp)"
proof -
  assume a: "OpenEventFilesOnGroup e grp tid cp w = (ok, grp', w')"
  show ?thesis
  proof (cases ok)
    case False
    with OpenEventFilesOnGroup_transaction [OF a] show ?thesis by simp
  next
    case True
    with OpenEventFilesOnGroup_transaction [OF a] obtain fds where
      l: "length fds = length (selections grp)"
      and g: "grp' = grp\<lparr>selections :=
                 map2 (\<lambda>selection event_fd.
                         selection\<lparr>event_fds := event_fds selection @ [event_fd]\<rparr>)
                      (selections grp) fds\<rparr>"
      by blast
    have "map (\<lambda>sel. length (event_fds sel))
            (map2 (\<lambda>selection event_fd. selection\<lparr>event_fds := event_fds selection @ [event_fd]\<rparr>)
                  xs fds) = map (\<lambda>k. k + 1) (map (\<lambda>sel. length (event_fds sel)) xs)"
      if "length fds = length xs" for xs :: "EventSelection list"
      using that by (induction xs fds rule: list_induct2') auto
    with l g True show ?thesis by (simp add: fd_counts_def)
  qed
qed

lemma open_on_cpus_counts:
  "open_on_cpus e tid pcpus (grp, n, w) = (grp', n', w') \<Longrightarrow>
   n \<le> n' \<and> n' \<le> n + length pcpus \<and>
   fd_counts grp' = map (\<lambda>k. k + (n' - n)) (fd_counts grp)"
proof (induction pcpus arbitrary: grp n w)
  case Nil
  then show ?case by simp
next
  case (Cons cp rest)
  obtain ok g1 w1 where o: "OpenEventFilesOnGroup e grp tid cp w = (ok, g1, w1)"
    by (cases "OpenEventFilesOnGroup e grp tid cp w") auto
  let ?n1 = "n + (if ok then 1 else 0)"
  have r: "open_on_cpus e tid rest (g1, ?n1, w1) = (grp', n', w')"
    using Cons.prems o by (cases ok) simp_all
  from Cons.IH [OF r] have b: "?n1 \<le> n'" "n' \<le> ?n1 + length rest"
    and c: "fd_counts grp' = map (\<lambda>k. k + (n' - ?n1)) (fd_counts g1)" by simp_all
  have "fd_counts grp' = map (\<lambda>k. k + (?n1 - n) + (n' - ?n1)) (fd_counts grp)"
    using c OpenEventFilesOnGroup_counts [OF o] by (simp add: comp_def)
  moreover have "(?n1 - n) + (n' - ?n1) = n' - n" using b by auto
  ultimately have "fd_counts grp' = map (\<lambda>k. k + (n' - n)) (fd_counts grp)"
    by (simp add: add.assoc)
  with b show ?case by (auto split: if_splits)
qed

lemma open_on_threads_counts:
  "open_on_threads e thrs pcpus (grp, n, w) = (grp', n', w') \<Longrightarrow>
   n \<le> n' \<and> n' \<le> n + length thrs * length pcpus \<and>
   fd_counts grp' = map (\<lambda>k. k + (n' - n)) (fd_counts grp)"
proof (induction thrs arbitrary: grp n w)
  case Nil
  then show ?case by simp
next
  case (Cons tid rest)
  obtain g1 n1 w1 where o: "open_on_cpus e tid pcpus (grp, n, w) = (g1, n1, w1)"
    by (cases "open_on_cpus e tid pcpus (grp, n, w)") auto
  have r: "open_on_threads e rest pcpus (g1, n1, w1) = (grp', n', w')"
    using Cons.prems o by simp
  from Cons.IH [OF r] have b: "n1 \<le> n'" "n' \<le> n1 + length rest * length pcpus"
    and c: "fd_counts grp' = map (\<lambda>k. k + (n' - n1)) (fd_counts g1)" by simp_all
  from open_on_cpus_counts [OF o] have b1: "n \<le> n1" "n1 \<le> n + length pcpus"
    and c1: "fd_counts g1 = map (\<lambda>k. k + (n1 - n)) (fd_counts grp)" by simp_all
  have "fd_counts grp' = map (\<lambda>k. k + (n1 - n) + (n' - n1)) (fd_counts grp)"
    using c c1 by (simp add: comp_def)
  moreover have "(n1 - n) + (n' - n1) = n' - n" using b b1 by auto
  ultimately have "fd_counts grp' = map (\<lambda>k. k + (n' - n)) (fd_counts grp)"
    by (simp add: add.assoc)
  with b b1 show ?case by auto
qed

lemma open_group_result:
  "open_group e thrs grp w = (r, grp', w') \<Longrightarrow>
   (r = None \<longleftrightarrow> selections grp = []) \<and>
   (\<exists>k. fd_counts grp' = map (\<lambda>n. n + k) (fd_counts grp) \<and> (r = Some True \<longleftrightarrow> 0 < k))"
proof (cases "selections grp")
  case Nil
  assume "open_group e thrs grp w = (r, grp', w')"
  with Nil show ?thesis by (auto simp: open_group_def fd_counts_def)
next
  case (Cons sel0 more)
  assume a: "open_group e thrs grp w = (r, grp', w')"
  show ?thesis
  proof (cases "choose_pcpus (GetOnlineCpus e) grp sel0")
    case None
    with a Cons have "r = Some False" "grp' = grp" by (simp_all add: open_group_def)
    then show ?thesis using Cons by (auto intro!: exI [of _ 0])
  next
    case (Some pcpus)
    obtain g1 k w1 where o: "open_on_threads e thrs pcpus (grp, 0, w) = (g1, k, w1)"
      by (cases "open_on_threads e thrs pcpus (grp, 0, w)") auto
    with a Cons Some have "grp' = g1" "r = Some (0 < k)"
      by (auto simp: open_group_def split: if_splits)
    with open_on_threads_counts [OF o] Cons show ?thesis
      by (auto intro!: exI [of _ k])
  qed
qed

lemma open_groups_result:
  "open_groups e thrs handled gs w = (Some True, gs', w') \<Longrightarrow>
   \<exists>new. gs' = handled @ new \<and> length new = length gs \<and>
     (\<forall>i<length gs. selections (gs ! i) \<noteq> [] \<and>
        (\<exists>k>0. fd_counts (new ! i) = map (\<lambda>n. n + k) (fd_counts (gs ! i))))"
proof (induction gs arbitrary: handled w)
  case Nil
  then show ?case by simp
next
  case (Cons grp rest)
  obtain r g1 w1 where o: "open_group e thrs grp w = (r, g1, w1)"
    by (cases "open_group e thrs grp w") auto
  have rT: "r = Some True"
    using Cons.prems o by (auto split: option.splits bool.splits)
  then have rec: "open_groups e thrs (handled @ [g1]) rest w1 = (Some True, gs', w')"
    using Cons.prems o by simp
  from Cons.IH [OF rec] obtain new where
    n: "gs' = (handled @ [g1]) @ new" "length new = length rest"
       "\<forall>i<length rest. selections (rest ! i) \<noteq> [] \<and>
          (\<exists>k>0. fd_counts (new ! i) = map (\<lambda>n. n + k) (fd_counts (rest ! i)))"
    by blast
  from open_group_result [OF o] rT
  have g: "selections grp \<noteq> []" "\<exists>k>0. fd_counts g1 = map (\<lambda>n. n + k) (fd_counts grp)"
    by auto
  have "\<forall>i<length (grp # rest). selections ((grp # rest) ! i) \<noteq> [] \<and>
          (\<exists>k>0. fd_counts ((g1 # new) ! i) = map (\<lambda>n. n + k) (fd_counts ((grp # rest) ! i)))"
  proof (intro allI impI)
    fix i assume "i < length (grp # rest)"
    then show "selections ((grp # rest) ! i) \<noteq> [] \<and>
          (\<exists>k>0. fd_counts ((g1 # new) ! i) = map (\<lambda>n. n + k) (fd_counts ((grp # rest) ! i)))"
      using g n(3) by (cases i) auto
  qed
  with n show ?case by (intro exI [of _ "g1 # new"]) simp
qed


lemma open_selections_Cons:
  "open_selections e tid cp (sel # rest) fds g w =
     (if atom_case e cp sel \<and> GetX86IntelAtomCpuEventType e = None then (None, w)
      else case OpenEventFile e w (open_attr e cp sel) tid cp g
                  (etm_name (event_type_modifier sel)) of
             (None, w') \<Rightarrow> (None, w')
           | (Some fd, w') \<Rightarrow>
               open_selections e tid cp rest (fds @ [fd])
                 (if g = None then Some fd else g) w')"
  by (simp add: Let_def atom_case_def open_attr_def)

lemma open_selections_calls:
  "open_selections e tid cp sels fds g w = (r, w') \<Longrightarrow>
   \<exists>calls. w' = w @ calls \<and> (\<forall>c\<in>set calls. open_pair c = Some (tid, cp)) \<and>
     (g \<noteq> None \<longrightarrow> filter is_leader_open calls = [])"
proof (induction sels arbitrary: fds g w)
  case Nil
  then show ?case by simp
next
  case (Cons sel sels)
  note p = Cons.prems [unfolded open_selections_Cons]
  show ?case
  proof (cases "atom_case e cp sel \<and> GetX86IntelAtomCpuEventType e = None")
    case True
    with p have "w' = w" by simp
    then show ?thesis by simp
  next
    case False
    let ?call = "Call_OpenEventFile (open_attr e cp sel) tid cp (map_option perf_event_fd g)
                   (etm_name (event_type_modifier sel))"
    obtain ofd w1 where o: "OpenEventFile e w (open_attr e cp sel) tid cp g
                              (etm_name (event_type_modifier sel)) = (ofd, w1)"
      by (cases "OpenEventFile e w (open_attr e cp sel) tid cp g
                   (etm_name (event_type_modifier sel))") simp
    have w1: "w1 = w @ [?call]"
      using OpenEventFile_world [of e w "open_attr e cp sel" tid cp g
               "etm_name (event_type_modifier sel)"] o
      by simp
    have cp: "open_pair ?call = Some (tid, cp)" by (simp add: open_pair_def)
    have ld: "g \<noteq> None \<Longrightarrow> \<not> is_leader_open ?call"
      by (cases g) (simp_all add: is_leader_open_def)
    show ?thesis
    proof (cases ofd)
      case None
      with p False o have "w' = w1" by simp
      then have "w' = w @ [?call]" using w1 by simp
      moreover have "\<forall>c\<in>set [?call]. open_pair c = Some (tid, cp)" using cp by simp
      moreover have "g \<noteq> None \<longrightarrow> filter is_leader_open [?call] = []" using ld by simp
      ultimately show ?thesis by (intro exI [of _ "[?call]"]) simp
    next
      case (Some fd)
      let ?g' = "if g = None then Some fd else g"
      from p False o Some
      have r: "open_selections e tid cp sels (fds @ [fd]) ?g' w1 = (r, w')"
        by simp
      have "?g' \<noteq> None" by simp
      from Cons.IH [OF r] obtain calls where
        c0: "w' = w1 @ calls \<and> (\<forall>c\<in>set calls. open_pair c = Some (tid, cp)) \<and>
           (?g' \<noteq> None \<longrightarrow> filter is_leader_open calls = [])"
        by (elim exE)
      have c: "w' = w1 @ calls" "\<forall>c\<in>set calls. open_pair c = Some (tid, cp)"
           "filter is_leader_open calls = []"
        using c0 by simp_all
      have "w' = w @ (?call # calls)" using c(1) w1 by simp
      moreover have "\<forall>c\<in>set (?call # calls). open_pair c = Some (tid, cp)"
        using c(2) cp by simp
      moreover have "g \<noteq> None \<longrightarrow> filter is_leader_open (?call # calls) = []"
        using c(3) ld by simp
      ultimately show ?thesis by (intro exI [of _ "?call # calls"]) simp
    qed
  qed
qed


lemma open_selections_leader_call:
  "open_selections e tid cp (sel # sels) [] None w = (r, w') \<Longrightarrow>
   \<exists>calls. w' = w @ calls \<and>
     map open_pair (filter is_leader_open calls) =
       (if atom_case e cp sel \<and> GetX86IntelAtomCpuEventType e = None then []
        else [Some (tid, cp)])"
proof -
  assume a: "open_selections e tid cp (sel # sels) [] None w = (r, w')"
  note p = a [unfolded open_selections_Cons]
  show ?thesis
  proof (cases "atom_case e cp sel \<and> GetX86IntelAtomCpuEventType e = None")
    case True
    with p have "w' = w" by simp
    with True show ?thesis by (intro exI [of _ "[]"]) simp
  next
    case na: False
    let ?call = "Call_OpenEventFile (open_attr e cp sel) tid cp None
                   (etm_name (event_type_modifier sel))"
    obtain ofd w1 where o: "OpenEventFile e w (open_attr e cp sel) tid cp None
                               (etm_name (event_type_modifier sel)) = (ofd, w1)"
      by (cases "OpenEventFile e w (open_attr e cp sel) tid cp None
                   (etm_name (event_type_modifier sel))") simp
    have w1: "w1 = w @ [?call]"
      using OpenEventFile_world [of e w "open_attr e cp sel" tid cp None
              "etm_name (event_type_modifier sel)"] o by simp
    have l: "map open_pair (filter is_leader_open [?call]) = [Some (tid, cp)]"
      by (simp add: is_leader_open_def open_pair_def)
    show ?thesis
    proof (cases ofd)
      case None
      with p na o have "w' = w1" by simp
      with w1 l na show ?thesis by (intro exI [of _ "[?call]"]) simp
    next
      case (Some fd)
      with p na o have r: "open_selections e tid cp sels [fd] (Some fd) w1 = (r, w')"
        by simp
      from open_selections_calls [OF r] obtain calls where
        c0: "w' = w1 @ calls \<and> (\<forall>c\<in>set calls. open_pair c = Some (tid, cp)) \<and>
             (Some fd \<noteq> None \<longrightarrow> filter is_leader_open calls = [])"
        by (elim exE)
      have c: "w' = w1 @ calls" "filter is_leader_open calls = []" using c0 by simp_all
      have "w' = w @ (?call # calls)" using c(1) w1 by simp
      moreover have "map open_pair (filter is_leader_open (?call # calls)) = [Some (tid, cp)]"
        using c(2) by (simp add: is_leader_open_def open_pair_def)
      ultimately show ?thesis using na by (intro exI [of _ "?call # calls"]) simp
    qed
  qed
qed

lemma OpenEventFilesOnGroup_attrs:
  "OpenEventFilesOnGroup e grp tid cp w = (ok, grp', w') \<Longrightarrow>
   map event_attr (selections grp') = map event_attr (selections grp)"
proof -
  assume a: "OpenEventFilesOnGroup e grp tid cp w = (ok, grp', w')"
  have m: "map event_attr
             (map2 (\<lambda>selection event_fd. selection\<lparr>event_fds := event_fds selection @ [event_fd]\<rparr>)
                   xs fds) = map event_attr xs"
    if "length fds = length xs" for xs :: "EventSelection list" and fds
    using that by (induction xs fds rule: list_induct2') auto
  show ?thesis
  proof (cases ok)
    case False
    with OpenEventFilesOnGroup_transaction [OF a] show ?thesis by simp
  next
    case True
    with OpenEventFilesOnGroup_transaction [OF a] obtain fds where
      "length fds = length (selections grp) \<and>
       grp' = grp\<lparr>selections :=
                 map2 (\<lambda>selection event_fd.
                         selection\<lparr>event_fds := event_fds selection @ [event_fd]\<rparr>)
                      (selections grp) fds\<rparr>"
      by auto
    with m show ?thesis by simp
  qed
qed

lemma leader_bails_attrs:
  "map event_attr (selections g1) = map event_attr (selections g2) \<Longrightarrow>
   leader_bails e g1 c = leader_bails e g2 c"
  by (cases "selections g1"; cases "selections g2")
     (auto simp: leader_bails_def atom_case_def)

lemma open_on_cpus_attrs:
  "open_on_cpus e tid pcpus (grp, n, w) = (grp', n', w') \<Longrightarrow>
   map event_attr (selections grp') = map event_attr (selections grp)"
proof (induction pcpus arbitrary: grp n w)
  case Nil
  then show ?case by simp
next
  case (Cons cp rest)
  obtain ok g1 w1 where o: "OpenEventFilesOnGroup e grp tid cp w = (ok, g1, w1)"
    by (cases "OpenEventFilesOnGroup e grp tid cp w") auto
  have r: "open_on_cpus e tid rest (g1, n + (if ok then 1 else 0), w1) = (grp', n', w')"
    using Cons.prems o by (cases ok) simp_all
  from Cons.IH [OF r] OpenEventFilesOnGroup_attrs [OF o] show ?case by simp
qed

lemma OpenEventFilesOnGroup_calls:
  "OpenEventFilesOnGroup e grp tid cp w = (ok, grp', w') \<Longrightarrow>
   \<exists>calls. w' = w @ calls \<and> (\<forall>c\<in>set calls. open_pair c = Some (tid, cp)) \<and>
      map open_pair (filter is_leader_open calls) =
        (if leader_bails e grp cp then [] else [Some (tid, cp)])"
proof -
  assume a: "OpenEventFilesOnGroup e grp tid cp w = (ok, grp', w')"
  obtain r w1 where o: "open_selections e tid cp (selections grp) [] None w = (r, w1)"
    by (cases "open_selections e tid cp (selections grp) [] None w") auto
  have w': "w' = w1" using a o by (auto simp: OpenEventFilesOnGroup_def split: option.splits)
  from open_selections_calls [OF o] obtain calls where
    c0: "w1 = w @ calls \<and> (\<forall>c\<in>set calls. open_pair c = Some (tid, cp)) \<and>
         (None \<noteq> (None :: EventFd option) \<longrightarrow> filter is_leader_open calls = [])"
    by (elim exE)
  have c: "w1 = w @ calls" "\<forall>c\<in>set calls. open_pair c = Some (tid, cp)"
    using c0 by simp_all
  have "map open_pair (filter is_leader_open calls) =
          (if leader_bails e grp cp then [] else [Some (tid, cp)])"
  proof (cases "selections grp")
    case Nil
    with o c(1) show ?thesis by (simp add: leader_bails_def)
  next
    case (Cons sel sels)
    from open_selections_leader_call [OF o [unfolded Cons]] obtain calls2 where
      "w1 = w @ calls2 \<and>
       map open_pair (filter is_leader_open calls2) =
         (if atom_case e cp sel \<and> GetX86IntelAtomCpuEventType e = None then []
          else [Some (tid, cp)])"
      by (elim exE)
    with c(1) Cons show ?thesis by (simp add: leader_bails_def)
  qed
  with c w' show ?thesis by (intro conjI exI [of _ calls]) simp_all
qed

lemma open_on_cpus_calls:
  "open_on_cpus e tid pcpus (grp, n, w) = (grp', n', w') \<Longrightarrow>
   \<exists>calls. w' = w @ calls \<and>
      (\<forall>c\<in>set calls. \<exists>cp\<in>set pcpus. open_pair c = Some (tid, cp)) \<and>
      map open_pair (filter is_leader_open calls) =
        map (\<lambda>cp. Some (tid, cp)) (filter (\<lambda>cp. \<not> leader_bails e grp cp) pcpus)"
proof (induction pcpus arbitrary: grp n w)
  case Nil
  then show ?case by simp
next
  case (Cons cp rest)
  obtain ok g1 w1 where o: "OpenEventFilesOnGroup e grp tid cp w = (ok, g1, w1)"
    by (cases "OpenEventFilesOnGroup e grp tid cp w") auto
  have r: "open_on_cpus e tid rest (g1, n + (if ok then 1 else 0), w1) = (grp', n', w')"
    using Cons.prems o by (cases ok) simp_all
  have lb: "\<And>c. leader_bails e g1 c = leader_bails e grp c"
    by (rule leader_bails_attrs [OF OpenEventFilesOnGroup_attrs [OF o]])
  from OpenEventFilesOnGroup_calls [OF o] obtain c1 where
    c10: "w1 = w @ c1 \<and> (\<forall>c\<in>set c1. open_pair c = Some (tid, cp)) \<and>
        map open_pair (filter is_leader_open c1) =
          (if leader_bails e grp cp then [] else [Some (tid, cp)])"
    by (elim exE)
  from Cons.IH [OF r] obtain c2 where
    c20: "w' = w1 @ c2 \<and> (\<forall>c\<in>set c2. \<exists>cp\<in>set rest. open_pair c = Some (tid, cp)) \<and>
        map open_pair (filter is_leader_open c2) =
          map (\<lambda>cp. Some (tid, cp)) (filter (\<lambda>cp. \<not> leader_bails e g1 cp) rest)"
    by (elim exE)
  have "w' = w @ (c1 @ c2)" using c10 c20 by simp
  moreover have "\<forall>c\<in>set (c1 @ c2). \<exists>x\<in>set (cp # rest). open_pair c = Some (tid, x)"
    using c10 c20 by auto
  moreover have "map open_pair (filter is_leader_open (c1 @ c2)) =
         map (\<lambda>cp. Some (tid, cp)) (filter (\<lambda>cp. \<not> leader_bails e grp cp) (cp # rest))"
    using c10 c20 lb by simp
  ultimately show ?case by (intro exI [of _ "c1 @ c2"]) simp
qed

lemma filter_product_Cons:
  "filter (\<lambda>(t, c). P c) (List.product (tid # rest) pcpus) =
   map (Pair tid) (filter P pcpus) @ filter (\<lambda>(t, c). P c) (List.product rest pcpus)"
  by (simp add: filter_map comp_def)

lemma open_on_threads_calls:
  "open_on_threads e thrs pcpus (grp, n, w) = (grp', n', w') \<Longrightarrow>
   \<exists>calls. w' = w @ calls \<and>
      (\<forall>c\<in>set calls. \<exists>tid\<in>set thrs. \<exists>cp\<in>set pcpus. open_pair c = Some (tid, cp)) \<and>
      map open_pair (filter is_leader_open calls) =
        map Some (filter (\<lambda>(t, c). \<not> leader_bails e grp c) (List.product thrs pcpus))"
proof (induction thrs arbitrary: grp n w)
  case Nil
  then show ?case by simp
next
  case (Cons tid rest)
  obtain g1 n1 w1 where o: "open_on_cpus e tid pcpus (grp, n, w) = (g1, n1, w1)"
    by (cases "open_on_cpus e tid pcpus (grp, n, w)") auto
  have r: "open_on_threads e rest pcpus (g1, n1, w1) = (grp', n', w')"
    using Cons.prems o by simp
  have lb: "\<And>c. leader_bails e g1 c = leader_bails e grp c"
    by (rule leader_bails_attrs [OF open_on_cpus_attrs [OF o]])
  from open_on_cpus_calls [OF o] obtain c1 where
    c10: "w1 = w @ c1 \<and> (\<forall>c\<in>set c1. \<exists>cp\<in>set pcpus. open_pair c = Some (tid, cp)) \<and>
        map open_pair (filter is_leader_open c1) =
          map (\<lambda>cp. Some (tid, cp)) (filter (\<lambda>cp. \<not> leader_bails e grp cp) pcpus)"
    by (elim exE)
  from Cons.IH [OF r] obtain c2 where
    c20: "w' = w1 @ c2 \<and>
        (\<forall>c\<in>set c2. \<exists>tid\<in>set rest. \<exists>cp\<in>set pcpus. open_pair c = Some (tid, cp)) \<and>
        map open_pair (filter is_leader_open c2) =
          map Some (filter (\<lambda>(t, c). \<not> leader_bails e g1 c) (List.product rest pcpus))"
    by (elim exE)
  have "w' = w @ (c1 @ c2)" using c10 c20 by simp
  moreover have "\<forall>c\<in>set (c1 @ c2). \<exists>t\<in>set (tid # rest). \<exists>cp\<in>set pcpus.
                    open_pair c = Some (t, cp)"
    using c10 c20 by auto
  moreover have "map open_pair (filter is_leader_open (c1 @ c2)) =
         map Some (filter (\<lambda>(t, c). \<not> leader_bails e grp c) (List.product (tid # rest) pcpus))"
    using c10 c20 lb unfolding filter_product_Cons by (simp add: comp_def)
  ultimately show ?case by (intro exI [of _ "c1 @ c2"]) simp
qed

lemma open_on_cpus_fold:
  "open_on_cpus e tid pcpus st = fold (try_pair e) (map (Pair tid) pcpus) st"
proof (induction pcpus arbitrary: st)
  case Nil
  show ?case by simp
next
  case (Cons cp rest)
  obtain grp n w where st: "st = (grp, n, w)" by (cases st) auto
  obtain ok g1 w1 where o: "OpenEventFilesOnGroup e grp tid cp w = (ok, g1, w1)"
    by (cases "OpenEventFilesOnGroup e grp tid cp w") auto
  show ?case using Cons.IH st o by (cases ok) (simp_all add: try_pair_def)
qed

lemma open_on_threads_fold:
  "open_on_threads e thrs pcpus st = fold (try_pair e) (List.product thrs pcpus) st"
  by (induction thrs arbitrary: st) (simp_all add: open_on_cpus_fold)

lemma open_groups_shape:
  "open_groups e thrs handled gs w = (r, gs', w') \<Longrightarrow>
   length gs' = length handled + length gs \<and>
   (r = None \<longrightarrow> (\<exists>g\<in>set gs. selections g = []))"
proof (induction gs arbitrary: handled w)
  case Nil
  then show ?case by auto
next
  case (Cons grp rest)
  obtain r1 g1 w1 where o: "open_group e thrs grp w = (r1, g1, w1)"
    by (cases "open_group e thrs grp w") auto
  show ?case
  proof (cases "r1 = Some True")
    case True
    then have rec: "open_groups e thrs (handled @ [g1]) rest w1 = (r, gs', w')"
      using Cons.prems o by simp
    from Cons.IH [OF rec] show ?thesis by auto
  next
    case False
    then have "r = r1 \<and> gs' = handled @ g1 # rest"
      using Cons.prems o by (auto split: option.splits bool.splits)
    moreover from open_group_result [OF o] have "r1 = None \<longleftrightarrow> selections grp = []" by simp
    ultimately show ?thesis by auto
  qed
qed

lemma OpenEventFilesForThreads_shape:
  assumes "OpenEventFilesForThreads e thrs s w = (r, s', w')"
  shows "length (groups s') = length (groups s) \<and>
         (r = None \<longrightarrow> (\<exists>g\<in>set (groups s). selections g = []))"
proof -
  obtain r1 gs w1 where o: "open_groups e thrs [] (groups s) w = (r1, gs, w1)"
    by (cases "open_groups e thrs [] (groups s) w") auto
  have g: "groups s' = gs" and r: "r = None \<longrightarrow> r1 = None"
    using assms o
    by (auto simp: OpenEventFilesForThreads_def split: option.splits bool.splits prod.splits)
  from open_groups_shape [OF o] g r show ?thesis by auto
qed

lemma OpenEventFilesForThreads_success:
  assumes "OpenEventFilesForThreads e thrs s w = (Some True, s', w')"
  shows "length (groups s') = length (groups s) \<and>
     (\<forall>i<length (groups s). selections (groups s ! i) \<noteq> [] \<and>
        (\<exists>k>0. fd_counts (groups s' ! i) = map (\<lambda>n. n + k) (fd_counts (groups s ! i))))"
proof -
  obtain r gs w1 where o: "open_groups e thrs [] (groups s) w = (r, gs, w1)"
    by (cases "open_groups e thrs [] (groups s) w") auto
  have rT: "r = Some True" and g: "groups s' = gs"
    using assms o
    by (auto simp: OpenEventFilesForThreads_def split: option.splits bool.splits prod.splits)
  from open_groups_result [OF o [unfolded rT]] obtain new where
    n: "gs = [] @ new \<and> length new = length (groups s) \<and>
     (\<forall>i<length (groups s). selections (groups s ! i) \<noteq> [] \<and>
        (\<exists>k>0. fd_counts (new ! i) = map (\<lambda>n. n + k) (fd_counts (groups s ! i))))"
    by (elim exE)
  then show ?thesis using g by simp
qed


text \<open>
  C4. For one (tid, cpu), \<^verbatim>\<open>OpenEventFilesOnGroup\<close> either returns true and every selection
  of the group has gained exactly one descriptor, opened for that tid and cpu, the first
  selection's without a leader and every later one with the first one's descriptor as its
  leader; or it returns false and the group is as it was. The two loops over the threads
  and the cpus make one such pass for every pair (tid, cpu), threads in the outer loop,
  whatever the passes before it returned: a failed pair is passed over and the next one
  is tried. \<^verbatim>\<open>success_count\<close> is the number of passes that returned true, every
  selection gains that many descriptors, and the opens without a leader are one for each
  pair on which a pass opens anything. A group with selections and no successful pair
  makes the loop over the groups return false. \<^verbatim>\<open>OpenEventFiles\<close> returns true only if
  every group has at least one successful pair, and returns false when all groups have
  selections and one of them has gained no descriptor.
\<close>

theorem open_event_files_per_pair_transaction:
  "(OpenEventFilesOnGroup e grp tid cp w = (ok, grp', w') \<longrightarrow>
      (\<not> ok \<longrightarrow> grp' = grp) \<and>
      (ok \<longrightarrow> (\<exists>fds. length fds = length (selections grp) \<and>
         grp' = grp\<lparr>selections :=
                   map2 (\<lambda>selection event_fd.
                           selection\<lparr>event_fds := event_fds selection @ [event_fd]\<rparr>)
                        (selections grp) fds\<rparr> \<and>
         (\<forall>fd\<in>set fds. fd_tid fd = tid \<and> fd_cpu fd = cp) \<and>
         (\<forall>i<length fds. fd_leader (fds ! i) =
              (if i = 0 then None else Some (perf_event_fd (fds ! 0))))))) \<and>
   open_on_threads e thrs pcpus st = fold (try_pair e) (List.product thrs pcpus) st \<and>
   (open_on_threads e thrs pcpus (grp, 0, w) = (grp1, success_count, w1) \<longrightarrow>
      success_count \<le> length thrs * length pcpus \<and>
      fd_counts grp1 = map (\<lambda>n. n + success_count) (fd_counts grp) \<and>
      (\<exists>calls. w1 = w @ calls \<and>
         (\<forall>c\<in>set calls. \<exists>t\<in>set thrs. \<exists>c'\<in>set pcpus. open_pair c = Some (t, c')) \<and>
         map open_pair (filter is_leader_open calls) =
           map Some (filter (\<lambda>(t, c'). \<not> leader_bails e grp c') (List.product thrs pcpus)))) \<and>
   (open_group e thrs grp w = (r, grp2, w2) \<longrightarrow>
      (\<exists>k. fd_counts grp2 = map (\<lambda>n. n + k) (fd_counts grp) \<and> (r = Some True \<longleftrightarrow> 0 < k) \<and>
           (k = 0 \<and> selections grp \<noteq> [] \<longrightarrow> r = Some False))) \<and>
   (OpenEventFiles e s w = (r3, s3, w3) \<longrightarrow>
      length (groups s3) = length (groups s) \<and>
      (r3 = Some True \<longrightarrow>
         (\<forall>i<length (groups s). selections (groups s ! i) \<noteq> [] \<and>
            (\<exists>k>0. fd_counts (groups s3 ! i) = map (\<lambda>n. n + k) (fd_counts (groups s ! i))))) \<and>
      ((\<forall>g\<in>set (groups s). selections g \<noteq> []) \<and>
       (\<exists>i<length (groups s). fd_counts (groups s3 ! i) = fd_counts (groups s ! i)) \<longrightarrow>
         r3 = Some False))"
proof (intro conjI impI)
  assume "OpenEventFilesOnGroup e grp tid cp w = (ok, grp', w')"
  from OpenEventFilesOnGroup_transaction [OF this]
  show "\<not> ok \<Longrightarrow> grp' = grp"
    and "ok \<Longrightarrow> \<exists>fds. length fds = length (selections grp) \<and>
         grp' = grp\<lparr>selections :=
                   map2 (\<lambda>selection event_fd.
                           selection\<lparr>event_fds := event_fds selection @ [event_fd]\<rparr>)
                        (selections grp) fds\<rparr> \<and>
         (\<forall>fd\<in>set fds. fd_tid fd = tid \<and> fd_cpu fd = cp) \<and>
         (\<forall>i<length fds. fd_leader (fds ! i) =
              (if i = 0 then None else Some (perf_event_fd (fds ! 0))))"
    by simp_all
next
  show "open_on_threads e thrs pcpus st = fold (try_pair e) (List.product thrs pcpus) st"
    by (rule open_on_threads_fold)
next
  assume a: "open_on_threads e thrs pcpus (grp, 0, w) = (grp1, success_count, w1)"
  from open_on_threads_counts [OF a]
  show "success_count \<le> length thrs * length pcpus"
    and "fd_counts grp1 = map (\<lambda>n. n + success_count) (fd_counts grp)"
    by simp_all
  from open_on_threads_calls [OF a]
  show "\<exists>calls. w1 = w @ calls \<and>
         (\<forall>c\<in>set calls. \<exists>t\<in>set thrs. \<exists>c'\<in>set pcpus. open_pair c = Some (t, c')) \<and>
         map open_pair (filter is_leader_open calls) =
           map Some (filter (\<lambda>(t, c'). \<not> leader_bails e grp c') (List.product thrs pcpus))" .
next
  assume a: "open_group e thrs grp w = (r, grp2, w2)"
  from open_group_result [OF a] have n: "r = None \<longleftrightarrow> selections grp = []" by simp
  from open_group_result [OF a] obtain k where
    k: "fd_counts grp2 = map (\<lambda>n. n + k) (fd_counts grp) \<and> (r = Some True \<longleftrightarrow> 0 < k)"
    by auto
  have "k = 0 \<and> selections grp \<noteq> [] \<longrightarrow> r = Some False"
    using k n by (cases r) auto
  with k show "\<exists>k. fd_counts grp2 = map (\<lambda>n. n + k) (fd_counts grp) \<and>
                  (r = Some True \<longleftrightarrow> 0 < k) \<and> (k = 0 \<and> selections grp \<noteq> [] \<longrightarrow> r = Some False)"
    by (intro exI [of _ k]) simp
next
  assume "OpenEventFiles e s w = (r3, s3, w3)"
  then have a: "OpenEventFilesForThreads e (PrepareThreads e (processes s) (threads s)) s w
             = (r3, s3, w3)"
    by (simp add: OpenEventFiles_def)
  from OpenEventFilesForThreads_shape [OF a]
  show len: "length (groups s3) = length (groups s)" by simp
  {
    assume "r3 = Some True"
    with a OpenEventFilesForThreads_success
    show "\<forall>i<length (groups s). selections (groups s ! i) \<noteq> [] \<and>
         (\<exists>k>0. fd_counts (groups s3 ! i) = map (\<lambda>n. n + k) (fd_counts (groups s ! i)))"
      by simp
  }
  {
    assume b: "(\<forall>g\<in>set (groups s). selections g \<noteq> []) \<and>
       (\<exists>i<length (groups s). fd_counts (groups s3 ! i) = fd_counts (groups s ! i))"
    then obtain i where i: "i < length (groups s)"
      "fd_counts (groups s3 ! i) = fd_counts (groups s ! i)" by auto
    from b i(1) have ne: "fd_counts (groups s ! i) \<noteq> []" by (simp add: fd_counts_def)
    have "r3 \<noteq> Some True"
    proof
      assume "r3 = Some True"
      with a OpenEventFilesForThreads_success i(1) obtain k where
        "0 < k" "fd_counts (groups s3 ! i) = map (\<lambda>n. n + k) (fd_counts (groups s ! i))"
        by blast
      with i(2) ne show False by (cases "fd_counts (groups s ! i)") auto
    qed
    moreover from OpenEventFilesForThreads_shape [OF a] b have "r3 \<noteq> None" by auto
    ultimately show "r3 = Some False" by (cases r3) auto
  }
qed

lemmas open_defs =
  OpenEventFiles_def OpenEventFilesForThreads_def PrepareThreads_def open_group_def
  choose_pcpus_def override_pcpus_def check_if_cpus_online_def OpenEventFilesOnGroup_def
  OpenEventFile_def ApplyFilters_def ApplyAddrFilters_def ApplyTracepointFilters_def
  open_cpu_def fd_counts_def open_pair_def is_leader_open_def SetCpusForNewEvents_def

theorem open_event_files_per_pair_transaction_witness:
  "\<not> fst (OpenEventFilesOnGroup example_env example_group 7 0 []) \<and>
   fst (snd (OpenEventFilesOnGroup example_env example_group 7 0 [])) = example_group \<and>
   map open_pair (snd (snd (OpenEventFilesOnGroup example_env example_group 7 0 [])))
     = [Some (7, 0), Some (7, 0)] \<and>
   fst (OpenEventFilesOnGroup example_env example_group 7 1 []) \<and>
   map (\<lambda>sel. map (\<lambda>fd. (perf_event_fd fd, fd_tid fd, fd_cpu fd, fd_leader fd)) (event_fds sel))
     (selections (fst (snd (OpenEventFilesOnGroup example_env example_group 7 1 []))))
     = [[(0, 7, 1, None)], [(1, 7, 1, Some 0)]] \<and>
   fst (snd (open_on_threads example_env [7] [0, 1] (example_group, 0, []))) = 1 \<and>
   fd_counts (fst (open_on_threads example_env [7] [0, 1] (example_group, 0, []))) = [1, 1] \<and>
   map open_pair (filter is_leader_open
       (snd (snd (open_on_threads example_env [7] [0, 1] (example_group, 0, [])))))
     = [Some (7, 0), Some (7, 1)] \<and>
   fst (open_group example_env [7] example_group []) = Some True \<and>
   fst (OpenEventFiles example_env example_set []) = Some True \<and>
   map fd_counts (groups example_set) = [[0, 0]] \<and>
   map fd_counts (groups (fst (snd (OpenEventFiles example_env example_set [])))) = [[1, 1]] \<and>
   map (\<lambda>sel. map (\<lambda>fd. (perf_event_fd fd, fd_tid fd, fd_cpu fd, fd_leader fd)) (event_fds sel))
     (selections (hd (groups (fst (snd (OpenEventFiles example_env example_set []))))))
     = [[(2, 7, 1, None)], [(3, 7, 1, Some 2)]] \<and>
   fst (OpenEventFiles example_env (SetCpusForNewEvents [0] example_set) []) = Some False"
proof -
  define r1 where "r1 = OpenEventFilesOnGroup example_env example_group 7 0 []"
  define r2 where "r2 = open_on_threads example_env [7] [0, 1] (example_group, 0, [])"
  define rg where "rg = open_group example_env [7] example_group []"
  define s4 where "s4 = SetCpusForNewEvents [0] example_set"
  define r4 where "r4 = OpenEventFiles example_env s4 []"
  let ?r3 = "OpenEventFiles example_env example_set []"
  have f1: "\<not> fst r1"
    by (simp add: r1_def example_group_def example_set_def example_defs open_defs Let_def)
  then have e1: "r1 = (False, fst (snd r1), snd (snd r1))"
    by (cases r1) simp
  have t1: "map open_pair (snd (snd r1)) = [Some (7, 0), Some (7, 0)]"
    by (simp add: r1_def example_group_def example_set_def example_defs open_defs Let_def)
  have ev: "fst (OpenEventFilesOnGroup example_env example_group 7 1 []) \<and>
   map (\<lambda>sel. map (\<lambda>fd. (perf_event_fd fd, fd_tid fd, fd_cpu fd, fd_leader fd)) (event_fds sel))
     (selections (fst (snd (OpenEventFilesOnGroup example_env example_group 7 1 []))))
     = [[(0, 7, 1, None)], [(1, 7, 1, Some 0)]]"
    by (simp add: example_group_def example_set_def example_defs open_defs Let_def)
  have n2: "fst (snd r2) = 1"
    by (simp add: r2_def example_group_def example_set_def example_defs open_defs Let_def)
  have e2: "r2 = (fst r2, 1, snd (snd r2))"
    using n2 by (cases r2) simp
  have cg: "fd_counts example_group = [0, 0]"
    by (simp add: example_group_def example_set_def example_defs open_defs Let_def)
  have lb: "filter (\<lambda>(t, c'). \<not> leader_bails example_env example_group c')
              (List.product [7] [0, 1]) = [(7, 0), (7, 1)]"
    by (simp add: example_group_def example_set_def example_defs leader_bails_def atom_case_def
          Let_def)
  have eg: "rg = (fst rg, fst (snd rg), snd (snd rg))" by simp
  have c2g: "fd_counts (fst (snd rg)) = [1, 1]"
    by (simp add: rg_def example_group_def example_set_def example_defs open_defs Let_def)
  have f3: "fst ?r3 = Some True"
    by (simp add: example_set_def example_defs open_defs Let_def)
  have c0: "map fd_counts (groups example_set) = [[0, 0]]"
    by (simp add: example_set_def example_defs open_defs Let_def)
  have c3: "map fd_counts (groups (fst (snd ?r3))) = [[1, 1]]"
    by (simp add: example_set_def example_defs open_defs Let_def)
  have d3: "map (\<lambda>sel. map (\<lambda>fd. (perf_event_fd fd, fd_tid fd, fd_cpu fd, fd_leader fd)) (event_fds sel))
     (selections (hd (groups (fst (snd ?r3))))) = [[(2, 7, 1, None)], [(3, 7, 1, Some 2)]]"
    by (simp add: example_set_def example_defs open_defs Let_def)
  have g4: "\<forall>g\<in>set (groups s4). selections g \<noteq> []"
    by (simp add: s4_def example_set_def example_defs open_defs Let_def)
  have c4: "map fd_counts (groups (fst (snd r4))) = [[0, 0]]"
    by (simp add: r4_def s4_def example_set_def example_defs open_defs Let_def)
  have c4': "map fd_counts (groups s4) = [[0, 0]]"
    by (simp add: s4_def example_set_def example_defs open_defs Let_def)
  have x4: "\<exists>i<length (groups s4). fd_counts (groups (fst (snd r4)) ! i) = fd_counts (groups s4 ! i)"
  proof (intro exI [of _ 0] conjI)
    have l: "length (groups s4) = 1" "length (groups (fst (snd r4))) = 1"
      using c4 c4' by (metis length_map length_Cons list.size(3) One_nat_def)+
    then show "0 < length (groups s4)" by simp
    from l show "fd_counts (groups (fst (snd r4)) ! 0) = fd_counts (groups s4 ! 0)"
      using c4 c4' by (metis nth_map zero_less_one)
  qed
  have e4: "r4 = (fst r4, fst (snd r4), snd (snd r4))" by simp
  note t = open_event_files_per_pair_transaction
             [of example_env example_group 7 0 "[]" False "fst (snd r1)" "snd (snd r1)"
                 "[7]" "[0, 1]" "(example_group, 0, [])" "fst r2" 1 "snd (snd r2)"
                 "fst rg" "fst (snd rg)" "snd (snd rg)"
                 s4 "fst r4" "fst (snd r4)" "snd (snd r4)"]
  note p1 = t [THEN conjunct1, folded r1_def]
  note p3 = t [THEN conjunct2, THEN conjunct2, THEN conjunct1, folded r2_def]
  note p4 = t [THEN conjunct2, THEN conjunct2, THEN conjunct2, THEN conjunct1, folded rg_def]
  note p5 = t [THEN conjunct2, THEN conjunct2, THEN conjunct2, THEN conjunct2, folded r4_def]
  from p1 e1 have u1: "fst (snd r1) = example_group" by simp
  from p3 e2 cg have u2: "fd_counts (fst r2) = [1, 1]" by simp
  from p3 e2 obtain calls where
    "snd (snd r2) = [] @ calls \<and>
     map open_pair (filter is_leader_open calls) =
       map Some (filter (\<lambda>(t, c'). \<not> leader_bails example_env example_group c')
                   (List.product [7] [0, 1]))"
    by blast
  then have u3: "map open_pair (filter is_leader_open (snd (snd r2))) = [Some (7, 0), Some (7, 1)]"
    unfolding lb by simp
  from p4 eg obtain k where
    "fd_counts (fst (snd rg)) = map (\<lambda>n. n + k) (fd_counts example_group) \<and>
     (fst rg = Some True \<longleftrightarrow> 0 < k)"
    by blast
  with cg c2g have u5: "fst rg = Some True" by auto
  from p5 e4 g4 x4 have u4: "fst r4 = Some False" by blast
  note ev1 = ev [THEN conjunct1] and ev2 = ev [THEN conjunct2]
  from f1 u1 t1 ev1 ev2 n2 u2 u3 u5 f3 c0 c3 d3 u4 show ?thesis
    unfolding r1_def [symmetric] r2_def [symmetric] rg_def [symmetric]
    unfolding r4_def s4_def by (intro conjI)
qed

lemma cpumask_on_first_map:
  assumes "selections g' = map f (selections g)"
    and "\<And>sel. allowed_cpus (f sel) = allowed_cpus sel"
    and "\<And>sel. event_type_modifier (f sel) = event_type_modifier sel"
  shows "cpumask_on_first g' = cpumask_on_first g"
  using assms
  by (cases "selections g") (auto simp: cpumask_on_first_def pmu_cpumask_def comp_def split: list.splits)

lemma cpumask_on_first_SetSampleRateForGroup:
  "cpumask_on_first (SetSampleRateForGroup e g r) = cpumask_on_first g"
  by (rule cpumask_on_first_map
        [where f = "\<lambda>selection.
                    if UseFreq e r
                    then selection\<lparr>event_attr :=
                           (event_attr selection)\<lparr>freq := True,
                                                  sample_period := rate_sample_freq r\<rparr>\<rparr>
                    else selection\<lparr>event_attr :=
                           (event_attr selection)\<lparr>freq := False,
                                                  sample_period := rate_sample_period r\<rparr>\<rparr>"])
     (simp_all add: SetSampleRateForGroup_def)

lemma cpumask_on_first_SetCpusForNewEvents:
  "\<forall>grp\<in>set (groups s). cpumask_on_first grp \<Longrightarrow>
   \<forall>grp\<in>set (groups (SetCpusForNewEvents cs s)). cpumask_on_first grp"
  by (auto simp: SetCpusForNewEvents_def cpumask_on_first_def split: list.splits)

lemma cpumask_on_first_SetSampleRateForNewEvents:
  "\<forall>grp\<in>set (groups s). cpumask_on_first grp \<Longrightarrow>
   \<forall>grp\<in>set (groups (SetSampleRateForNewEvents e r s)). cpumask_on_first grp"
  by (auto simp: SetSampleRateForNewEvents_def cpumask_on_first_SetSampleRateForGroup)

lemma cpumask_on_first_attr_update:
  "cpumask_on_first (grp\<lparr>selections :=
       map (\<lambda>selection. selection\<lparr>event_attr := h selection\<rparr>) (selections grp)\<rparr>)
   = cpumask_on_first grp"
  by (rule cpumask_on_first_map [where f = "\<lambda>selection. selection\<lparr>event_attr := h selection\<rparr>"])
     simp_all

lemma cpumask_on_first_SetBranchSampling:
  "\<forall>grp\<in>set (groups s). cpumask_on_first grp \<Longrightarrow>
   \<forall>grp\<in>set (groups (snd (SetBranchSampling e bst s))). cpumask_on_first grp"
  by (auto simp: SetBranchSampling_def cpumask_on_first_attr_update)

lemma cpumask_on_first_UnionSampleType:
  "\<forall>grp\<in>set (groups s). cpumask_on_first grp \<Longrightarrow>
   \<forall>grp\<in>set (groups (UnionSampleType s)). cpumask_on_first grp"
  by (auto simp: UnionSampleType_def Let_def cpumask_on_first_attr_update)

lemma BuildAndCheckEventSelection_allowed_cpus:
  "BuildAndCheckEventSelection e s name fe check = Some sel \<Longrightarrow> allowed_cpus sel = []"
  by (auto simp: BuildAndCheckEventSelection_def Let_def split: option.splits if_splits)

lemma add_group_loop_allowed_cpus:
  "add_group_loop e s check names acc fe fig aux = (Some (sels, x), aux') \<Longrightarrow>
   \<exists>new. sels = acc @ new \<and> length new = length names \<and>
     map allowed_cpus new =
       (case new of
          [] \<Rightarrow> []
        | sel # others \<Rightarrow> (if fig then pmu_cpumask sel else []) # map (\<lambda>_. []) others)"
proof (induction names arbitrary: acc fe fig aux)
  case Nil
  then show ?case by simp
next
  case (Cons name rest)
  from Cons.prems obtain sel where
    b: "BuildAndCheckEventSelection e s name fe check = Some sel"
    by (auto split: option.splits)
  define sel' where "sel' = (if fig \<and> IsPmuEvent (event_type (event_type_modifier sel))
                 then sel\<lparr>allowed_cpus := GetPmuCpumask (event_type (event_type_modifier sel))\<rparr>
                 else sel)"
  define aux1 where "aux1 = (if IsEtmEventType e (attr_type (event_attr sel)) then True else aux)"
  have rec: "add_group_loop e s check rest (acc @ [sel']) False False aux1 = (Some (sels, x), aux')"
    using Cons.prems b by (simp add: Let_def sel'_def aux1_def)
  have a: "allowed_cpus sel' = (if fig then pmu_cpumask sel' else [])"
    using BuildAndCheckEventSelection_allowed_cpus [OF b]
    by (simp add: sel'_def pmu_cpumask_def)
  from Cons.IH [OF rec] obtain new where
    n: "sels = (acc @ [sel']) @ new \<and> length new = length rest \<and>
        map allowed_cpus new =
          (case new of [] \<Rightarrow> [] | sel # others \<Rightarrow> (if False then pmu_cpumask sel else []) # map (\<lambda>_. []) others)"
    by (elim exE)
  then have m: "map allowed_cpus new = map (\<lambda>_. []) new" by (cases new) simp_all
  show ?case using n a m by (intro exI [of _ "sel' # new"]) simp
qed

lemma cpumask_on_first_AddEventGroup:
  assumes "\<forall>grp\<in>set (groups s). cpumask_on_first grp" and "names \<noteq> []"
  shows "\<forall>grp\<in>set (groups (snd (AddEventGroup e names check s))). cpumask_on_first grp"
proof (cases "add_group_loop e s check names [] (groups s = []) True (has_aux_trace s)")
  case (Pair r aux)
  show ?thesis
  proof (cases r)
    case None
    with Pair have "groups (snd (AddEventGroup e names check s)) = groups s"
      by (simp add: AddEventGroup_def assemble_group_def)
    with assms(1) show ?thesis by simp
  next
    case (Some p)
    obtain sels x where p: "p = (sels, x)" by (cases p) simp
    from add_group_loop_allowed_cpus [OF Pair [unfolded Some p]] obtain new where
      n: "sels = [] @ new \<and> length new = length names \<and>
          map allowed_cpus new =
            (case new of
               [] \<Rightarrow> []
             | sel # others \<Rightarrow> (if True then pmu_cpumask sel else []) # map (\<lambda>_. []) others)"
      by (elim exE)
    with assms(2) obtain sel0 others where s0: "sels = sel0 # others" by (cases new) auto
    define group0 where "group0 = \<lparr>selections = sels, set_sample_rate = False, cpus = []\<rparr>"
    define group1 where "group1 = (case sample_rate s of
                          None \<Rightarrow> group0
                        | Some rate \<Rightarrow> SetSampleRateForGroup e group0 rate)"
    define group2 where "group2 = (case session_cpus s of None \<Rightarrow> group1 | Some cs \<Rightarrow> group1\<lparr>cpus := cs\<rparr>)"
    have c0: "cpumask_on_first group0"
      using n s0 by (auto simp: cpumask_on_first_def group0_def split: list.splits)
    have c1: "cpumask_on_first group1"
      using c0 by (cases "sample_rate s") (simp_all add: group1_def cpumask_on_first_SetSampleRateForGroup)
    have c2: "cpumask_on_first group2"
      using c1
      by (cases "session_cpus s") (auto simp: group2_def cpumask_on_first_def split: list.splits)
    have "snd (AddEventGroup e names check s) =
            UnionSampleType (s\<lparr>groups := groups s @ [group2], has_aux_trace := aux\<rparr>)"
      unfolding group2_def group1_def group0_def using Pair Some p
      by (simp add: AddEventGroup_def assemble_group_def Let_def)
    moreover have "\<forall>grp\<in>set (groups (s\<lparr>groups := groups s @ [group2], has_aux_trace := aux\<rparr>)).
                     cpumask_on_first grp"
      using assms(1) c2 by simp
    then have "\<forall>grp\<in>set (groups (UnionSampleType
                  (s\<lparr>groups := groups s @ [group2], has_aux_trace := aux\<rparr>))). cpumask_on_first grp"
      by (rule cpumask_on_first_UnionSampleType)
    ultimately show ?thesis by simp
  qed
qed

lemma cpumask_on_first_append:
  "cpumask_on_first grp \<Longrightarrow> allowed_cpus sel = [] \<Longrightarrow>
   cpumask_on_first (grp\<lparr>selections := selections grp @ [sel]\<rparr>)"
  by (cases "selections grp") (auto simp: cpumask_on_first_def split: list.splits)

lemma add_counters_loop_cpumask:
  "\<forall>grp\<in>set (groups s). cpumask_on_first grp \<Longrightarrow> groups s \<noteq> [] \<Longrightarrow>
   (\<forall>grp\<in>set (groups (snd (add_counters_loop e names s))). cpumask_on_first grp) \<and>
   groups (snd (add_counters_loop e names s)) \<noteq> []"
proof (induction names arbitrary: s)
  case Nil
  then show ?case by simp
next
  case (Cons name rest)
  show ?case
  proof (cases "BuildAndCheckEventSelection e s name False True")
    case None
    with Cons.prems show ?thesis by simp
  next
    case (Some sel)
    obtain g gs where g: "groups s = g # gs" using Cons.prems(2) by (cases "groups s") auto
    define sel' where "sel' = sel\<lparr>event_attr :=
                (event_attr sel)\<lparr>freq := False,
                                 sample_period := INFINITE_SAMPLE_PERIOD e,
                                 inherit := False\<rparr>\<rparr>"
    define s1 where "s1 = s\<lparr>groups := g\<lparr>selections := selections g @ [sel']\<rparr> # gs\<rparr>"
    have a: "allowed_cpus sel' = []"
      using BuildAndCheckEventSelection_allowed_cpus [OF Some] by (simp add: sel'_def)
    have step: "add_counters_loop e (name # rest) s = add_counters_loop e rest s1"
      using Some g by (simp add: Let_def sel'_def s1_def)
    have "\<forall>grp\<in>set (groups s1). cpumask_on_first grp"
      using Cons.prems(1) g a by (simp add: s1_def cpumask_on_first_append)
    moreover have "groups s1 \<noteq> []" by (simp add: s1_def)
    ultimately show ?thesis using Cons.IH [of s1] step by simp
  qed
qed

lemma cpumask_on_first_AddCounters:
  assumes "\<forall>grp\<in>set (groups s). cpumask_on_first grp"
    and "AddCounters e names s = Some (b, s')"
  shows "\<forall>grp\<in>set (groups s'). cpumask_on_first grp"
proof (cases "groups s = [] \<or> length (groups s) > 1")
  case True
  with assms show ?thesis by (auto simp: AddCounters_def split: if_splits)
next
  case False
  then have ne: "groups s \<noteq> []" by simp
  obtain ok s1 where l: "add_counters_loop e names s = (ok, s1)"
    by (cases "add_counters_loop e names s") simp
  from add_counters_loop_cpumask [OF assms(1) ne, of e names] l
  have i1: "\<forall>grp\<in>set (groups s1). cpumask_on_first grp" and n1: "groups s1 \<noteq> []" by simp_all
  show ?thesis
  proof (cases ok)
    case False
    with assms(2) \<open>\<not> (groups s = [] \<or> length (groups s) > 1)\<close> l have "s' = s1"
      by (simp add: AddCounters_def)
    with i1 show ?thesis by simp
  next
    case True
    obtain g gs where g: "groups s1 = g # gs" using n1 by (cases "groups s1") auto
    let ?g' = "g\<lparr>selections :=
                 map (\<lambda>selection. selection\<lparr>event_attr :=
                        (event_attr selection)
                          \<lparr>sample_type := sample_type (event_attr selection) OR PERF_SAMPLE_READ,
                           read_format := read_format (event_attr selection) OR
                                          PERF_FORMAT_GROUP\<rparr>\<rparr>)
                     (selections g)\<rparr>"
    from True assms(2) \<open>\<not> (groups s = [] \<or> length (groups s) > 1)\<close> l g
    have "groups s' = ?g' # gs"
      by (auto simp: AddCounters_def Let_def)
    moreover have "cpumask_on_first ?g'"
      using i1 g by (simp add: cpumask_on_first_attr_update)
    ultimately show ?thesis using i1 g by simp
  qed
qed

lemma cpumask_on_first_apply_op:
  assumes "\<forall>grp\<in>set (groups s). cpumask_on_first grp"
    and "names_given op" and "apply_op e op s = Some s'"
  shows "\<forall>grp\<in>set (groups s'). cpumask_on_first grp"
proof (cases op)
  case (Op_AddEventGroup names check)
  with assms(2) have "names \<noteq> []" by (simp add: names_given_def)
  from cpumask_on_first_AddEventGroup [OF assms(1) this, of e check] assms(3) Op_AddEventGroup
  show ?thesis by (simp add: apply_op_def)
next
  case (Op_AddCounters names)
  with assms(3) obtain b where "AddCounters e names s = Some (b, s')"
    by (auto simp: apply_op_def)
  from cpumask_on_first_AddCounters [OF assms(1) this] show ?thesis .
next
  case (Op_SetCpusForNewEvents cs)
  with assms(3) cpumask_on_first_SetCpusForNewEvents [OF assms(1), of cs]
  show ?thesis by (simp add: apply_op_def)
next
  case (Op_SetSampleRateForNewEvents rate)
  with assms(3) cpumask_on_first_SetSampleRateForNewEvents [OF assms(1), of e rate]
  show ?thesis by (simp add: apply_op_def)
next
  case (Op_SetBranchSampling bst)
  with assms(3) cpumask_on_first_SetBranchSampling [OF assms(1), of e bst]
  show ?thesis by (simp add: apply_op_def)
qed

lemma cpumask_on_first_configure:
  "\<forall>grp\<in>set (groups s). cpumask_on_first grp \<Longrightarrow> \<forall>op\<in>set ops. names_given op \<Longrightarrow>
   configure e ops s = Some s' \<Longrightarrow> \<forall>grp\<in>set (groups s'). cpumask_on_first grp"
proof (induction ops arbitrary: s)
  case Nil
  then show ?case by simp
next
  case (Cons op ops)
  from Cons.prems(3) obtain s1 where a: "apply_op e op s = Some s1"
    and c: "configure e ops s1 = Some s'"
    by (auto split: option.splits)
  from cpumask_on_first_apply_op [OF Cons.prems(1) _ a] Cons.prems(2)
  have "\<forall>grp\<in>set (groups s1). cpumask_on_first grp" by simp
  from Cons.IH [OF this _ c] Cons.prems(2) show ?case by simp
qed

lemma open_group_fold:
  assumes "selections grp = selection0 # others"
  shows "open_group e thrs grp w =
     (let chosen = (if allowed_cpus selection0 \<noteq> [] then allowed_cpus selection0
                    else if cpus grp \<noteq> [] then cpus grp
                    else GetOnlineCpus e)
      in if (allowed_cpus selection0 \<noteq> [] \<or> cpus grp \<noteq> []) \<and>
            \<not> check_if_cpus_online (GetOnlineCpus e) chosen
         then (Some False, grp, w)
         else (case fold (try_pair e) (List.product thrs chosen) (grp, 0, w) of
                 (grp', success_count, w') \<Rightarrow> (Some (0 < success_count), grp', w')))"
  using assms
  by (auto simp: open_group_def choose_pcpus_def override_pcpus_def Let_def open_on_threads_fold
           split: prod.splits)

text \<open>
  C5. In a set configured by calls of \<^verbatim>\<open>AddEventGroup\<close> (with at least one name),
  \<^verbatim>\<open>AddCounters\<close>, \<^verbatim>\<open>SetCpusForNewEvents\<close>, \<^verbatim>\<open>SetSampleRateForNewEvents\<close> and
  \<^verbatim>\<open>SetBranchSampling\<close>, every group has a first selection whose allowed cpus are the
  cpumask of its event's PMU (none when the event is not of a PMU), and no other selection
  has allowed cpus. Opening such a group runs over the cpu list chosen by this precedence:
  that cpumask when it is not empty, otherwise the group's own cpu list when it is not
  empty, otherwise the online cpus. A list of the first two kinds with an offline cpu
  makes the call return false before anything is opened; otherwise one pass is made for
  every (thread, cpu) of the chosen list, threads in the outer loop, and the group
  succeeds when a pass does. For any group with a first selection, however it was built,
  the same holds of the first selection's allowed cpus: every open call made for the
  group is for a monitored thread and a cpu of the chosen list, and the calls without a
  leader are one for each (thread, cpu) of the chosen list on which a pass opens anything.
\<close>

theorem open_group_cpu_list_precedence:
  "(configure e ops (EventSelectionSet_init stat) = Some s \<and> (\<forall>op\<in>set ops. names_given op) \<and>
    grp \<in> set (groups s) \<longrightarrow>
      (\<exists>sel0 rest.
         selections grp = sel0 # rest \<and>
         map allowed_cpus (selections grp) = pmu_cpumask sel0 # map (\<lambda>_. []) rest \<and>
         open_group e thrs grp w =
           (let chosen = (if pmu_cpumask sel0 \<noteq> [] then pmu_cpumask sel0
                          else if cpus grp \<noteq> [] then cpus grp
                          else GetOnlineCpus e)
            in if (pmu_cpumask sel0 \<noteq> [] \<or> cpus grp \<noteq> []) \<and>
                  \<not> check_if_cpus_online (GetOnlineCpus e) chosen
               then (Some False, grp, w)
               else (case fold (try_pair e) (List.product thrs chosen) (grp, 0, w) of
                       (grp', success_count, w') \<Rightarrow> (Some (0 < success_count), grp', w'))))) \<and>
   (selections grp0 = selection0 # others \<longrightarrow>
      (let chosen = (if allowed_cpus selection0 \<noteq> [] then allowed_cpus selection0
                     else if cpus grp0 \<noteq> [] then cpus grp0
                     else GetOnlineCpus e);
           offline = ((allowed_cpus selection0 \<noteq> [] \<or> cpus grp0 \<noteq> []) \<and>
                      \<not> check_if_cpus_online (GetOnlineCpus e) chosen)
       in choose_pcpus (GetOnlineCpus e) grp0 selection0 = (if offline then None else Some chosen) \<and>
          open_group e thrs grp0 w0 =
            (if offline then (Some False, grp0, w0)
             else (case fold (try_pair e) (List.product thrs chosen) (grp0, 0, w0) of
                     (grp', success_count, w') \<Rightarrow> (Some (0 < success_count), grp', w'))) \<and>
          (\<exists>calls. snd (snd (open_group e thrs grp0 w0)) = w0 @ calls \<and>
             (\<forall>c\<in>set calls. \<exists>tid\<in>set thrs. \<exists>cp\<in>set chosen. open_pair c = Some (tid, cp)) \<and>
             map open_pair (filter is_leader_open calls) =
               (if offline then []
                else map Some (filter (\<lambda>(t, c). \<not> leader_bails e grp0 c)
                                 (List.product thrs chosen))))))"
proof (intro conjI impI)
  assume a: "configure e ops (EventSelectionSet_init stat) = Some s \<and>
             (\<forall>op\<in>set ops. names_given op) \<and> grp \<in> set (groups s)"
  have "\<forall>g\<in>set (groups (EventSelectionSet_init stat)). cpumask_on_first g"
    by (simp add: EventSelectionSet_init_def)
  from cpumask_on_first_configure [OF this, of ops e s] a
  have c: "cpumask_on_first grp" by simp
  then obtain sel0 rest where s0: "selections grp = sel0 # rest"
    by (cases "selections grp") (simp_all add: cpumask_on_first_def)
  with c have m: "map allowed_cpus (selections grp) = pmu_cpumask sel0 # map (\<lambda>_. []) rest"
    by (simp add: cpumask_on_first_def)
  then have al: "allowed_cpus sel0 = pmu_cpumask sel0" using s0 by simp
  show "\<exists>sel0 rest.
         selections grp = sel0 # rest \<and>
         map allowed_cpus (selections grp) = pmu_cpumask sel0 # map (\<lambda>_. []) rest \<and>
         open_group e thrs grp w =
           (let chosen = (if pmu_cpumask sel0 \<noteq> [] then pmu_cpumask sel0
                          else if cpus grp \<noteq> [] then cpus grp
                          else GetOnlineCpus e)
            in if (pmu_cpumask sel0 \<noteq> [] \<or> cpus grp \<noteq> []) \<and>
                  \<not> check_if_cpus_online (GetOnlineCpus e) chosen
               then (Some False, grp, w)
               else (case fold (try_pair e) (List.product thrs chosen) (grp, 0, w) of
                       (grp', success_count, w') \<Rightarrow> (Some (0 < success_count), grp', w')))"
    using s0 m open_group_fold [OF s0, of e thrs w, unfolded al]
    by (intro exI [of _ sel0] exI [of _ rest] conjI)
next
  assume s0: "selections grp0 = selection0 # others"
  define chosen where "chosen = (if allowed_cpus selection0 \<noteq> [] then allowed_cpus selection0
                       else if cpus grp0 \<noteq> [] then cpus grp0
                       else GetOnlineCpus e)"
  define offline where "offline = ((allowed_cpus selection0 \<noteq> [] \<or> cpus grp0 \<noteq> []) \<and>
                      \<not> check_if_cpus_online (GetOnlineCpus e) chosen)"
  have ch: "choose_pcpus (GetOnlineCpus e) grp0 selection0 = (if offline then None else Some chosen)"
    by (auto simp: choose_pcpus_def override_pcpus_def chosen_def offline_def Let_def)
  have og: "open_group e thrs grp0 w0 =
            (if offline then (Some False, grp0, w0)
             else (case fold (try_pair e) (List.product thrs chosen) (grp0, 0, w0) of
                     (grp', success_count, w') \<Rightarrow> (Some (0 < success_count), grp', w')))"
    using open_group_fold [OF s0, of e thrs w0] by (simp add: Let_def chosen_def offline_def)
  have tr: "\<exists>calls. snd (snd (open_group e thrs grp0 w0)) = w0 @ calls \<and>
             (\<forall>c\<in>set calls. \<exists>tid\<in>set thrs. \<exists>cp\<in>set chosen. open_pair c = Some (tid, cp)) \<and>
             map open_pair (filter is_leader_open calls) =
               (if offline then []
                else map Some (filter (\<lambda>(t, c). \<not> leader_bails e grp0 c)
                                 (List.product thrs chosen)))"
  proof (cases offline)
    case True
    with og show ?thesis by (intro exI [of _ "[]"]) simp
  next
    case False
    obtain g1 k w1 where o: "open_on_threads e thrs chosen (grp0, 0, w0) = (g1, k, w1)"
      by (cases "open_on_threads e thrs chosen (grp0, 0, w0)") auto
    have "snd (snd (open_group e thrs grp0 w0)) = w1"
      using og False o by (simp add: open_on_threads_fold)
    moreover from open_on_threads_calls [OF o] obtain calls where
      "w1 = w0 @ calls \<and>
      (\<forall>c\<in>set calls. \<exists>tid\<in>set thrs. \<exists>cp\<in>set chosen. open_pair c = Some (tid, cp)) \<and>
      map open_pair (filter is_leader_open calls) =
        map Some (filter (\<lambda>(t, c). \<not> leader_bails e grp0 c) (List.product thrs chosen))"
      by (elim exE)
    ultimately show ?thesis using False by (intro exI [of _ calls]) simp
  qed
  from ch og tr
  show "let chosen = (if allowed_cpus selection0 \<noteq> [] then allowed_cpus selection0
                     else if cpus grp0 \<noteq> [] then cpus grp0
                     else GetOnlineCpus e);
           offline = ((allowed_cpus selection0 \<noteq> [] \<or> cpus grp0 \<noteq> []) \<and>
                      \<not> check_if_cpus_online (GetOnlineCpus e) chosen)
       in choose_pcpus (GetOnlineCpus e) grp0 selection0 = (if offline then None else Some chosen) \<and>
          open_group e thrs grp0 w0 =
            (if offline then (Some False, grp0, w0)
             else (case fold (try_pair e) (List.product thrs chosen) (grp0, 0, w0) of
                     (grp', success_count, w') \<Rightarrow> (Some (0 < success_count), grp', w'))) \<and>
          (\<exists>calls. snd (snd (open_group e thrs grp0 w0)) = w0 @ calls \<and>
             (\<forall>c\<in>set calls. \<exists>tid\<in>set thrs. \<exists>cp\<in>set chosen. open_pair c = Some (tid, cp)) \<and>
             map open_pair (filter is_leader_open calls) =
               (if offline then []
                else map Some (filter (\<lambda>(t, c). \<not> leader_bails e grp0 c)
                                 (List.product thrs chosen))))"
    unfolding chosen_def [symmetric] offline_def [symmetric] Let_def by simp
qed

lemmas configure_defs =
  example_ops_def example_pmu_set_def apply_op_def names_given_def pmu_cpumask_def
  leader_bails_def atom_case_def PERF_TYPE_RAW_def

theorem open_group_cpu_list_precedence_witness:
  "configure example_env example_ops (EventSelectionSet_init True) = Some example_pmu_set \<and>
   map (\<lambda>g. map (\<lambda>sel. (IsPmuEvent (event_type (event_type_modifier sel)),
                         GetPmuCpumask (event_type (event_type_modifier sel)),
                         allowed_cpus sel)) (selections g)) (groups example_pmu_set)
     = [[(True, [1], [1]), (False, [], [])], [(False, [], [])]] \<and>
   allowed_cpus (hd (selections (hd (groups example_pmu_set))))
     = pmu_cpumask (hd (selections (hd (groups example_pmu_set)))) \<and>
   map cpus (groups example_pmu_set) = [[0], [0]] \<and>
   GetOnlineCpus example_env = [0, 1] \<and>
   map (\<lambda>g. map open_pair (filter is_leader_open (snd (snd (open_group example_env [7] g [])))))
     (groups example_pmu_set) = [[Some (7, 1)], [Some (7, 0)]] \<and>
   map (\<lambda>sel. (pmu_cpumask sel, allowed_cpus sel)) (selections example_group) = [([], []), ([], [])] \<and>
   cpus example_group = [] \<and>
   map open_pair (filter is_leader_open (snd (snd (open_group example_env [7] example_group []))))
     = [Some (7, 0), Some (7, 1)] \<and>
   fst (open_group example_env [7] (hd (groups (SetCpusForNewEvents [5] example_set))) [])
     = Some False \<and>
   snd (snd (open_group example_env [7] (hd (groups (SetCpusForNewEvents [5] example_set))) []))
     = []"
proof -
  let ?g0 = "hd (groups example_pmu_set)"
  let ?sel = "hd (selections example_group)"
  let ?oth = "tl (selections example_group)"
  have cf: "configure example_env example_ops (EventSelectionSet_init True) = Some example_pmu_set"
    by (simp add: configure_defs)
  have ng: "\<forall>op\<in>set example_ops. names_given op" by (simp add: configure_defs)
  have g0: "?g0 \<in> set (groups example_pmu_set)"
    by (simp add: configure_defs example_defs open_defs Let_def)
  have sh: "map (\<lambda>g. map (\<lambda>sel. (IsPmuEvent (event_type (event_type_modifier sel)),
                         GetPmuCpumask (event_type (event_type_modifier sel)),
                         allowed_cpus sel)) (selections g)) (groups example_pmu_set)
     = [[(True, [1], [1]), (False, [], [])], [(False, [], [])]]"
    by (simp add: configure_defs example_defs open_defs Let_def)
  have cp: "map cpus (groups example_pmu_set) = [[0], [0]]"
    by (simp add: configure_defs example_defs open_defs Let_def)
  have on: "GetOnlineCpus example_env = [0, 1]" by (simp add: example_env_def)
  have ld: "map (\<lambda>g. map open_pair (filter is_leader_open
                    (snd (snd (open_group example_env [7] g []))))) (groups example_pmu_set)
            = [[Some (7, 1)], [Some (7, 0)]]"
    by (simp add: configure_defs example_defs open_defs Let_def)
  have sg: "selections example_group = ?sel # ?oth"
    by (simp add: example_group_def example_set_def example_defs Let_def)
  have al: "map (\<lambda>sel. (pmu_cpumask sel, allowed_cpus sel)) (selections example_group)
            = [([], []), ([], [])]"
    by (simp add: example_group_def example_set_def example_defs configure_defs Let_def)
  then have a0: "allowed_cpus ?sel = []" using sg by (metis list.sel(1) list.simps(9) prod.inject)
  have c0: "cpus example_group = []"
    by (simp add: example_group_def example_set_def example_defs Let_def)
  have lb: "\<not> leader_bails example_env example_group 0 \<and> \<not> leader_bails example_env example_group 1"
    by (simp add: example_group_def example_set_def example_defs configure_defs Let_def)
  have off: "open_group example_env [7] (hd (groups (SetCpusForNewEvents [5] example_set))) []
             = (Some False, hd (groups (SetCpusForNewEvents [5] example_set)), [])"
    by (simp add: example_set_def example_defs open_defs Let_def)
  note t = open_group_cpu_list_precedence
             [of example_env example_ops True example_pmu_set ?g0 "[7]" "[]"
                 example_group ?sel ?oth "[]"]
  from t cf ng g0 obtain sel0 rest where
    "selections ?g0 = sel0 # rest \<and>
     map allowed_cpus (selections ?g0) = pmu_cpumask sel0 # map (\<lambda>_. []) rest"
    by auto
  then have u1: "allowed_cpus (hd (selections ?g0)) = pmu_cpumask (hd (selections ?g0))"
    by auto
  from t sg a0 c0 on lb obtain calls where
    "snd (snd (open_group example_env [7] example_group [])) = [] @ calls \<and>
     map open_pair (filter is_leader_open calls) = [Some (7, 0), Some (7, 1)]"
    by (auto simp: Let_def)
  then have u2: "map open_pair (filter is_leader_open
                   (snd (snd (open_group example_env [7] example_group []))))
                 = [Some (7, 0), Some (7, 1)]"
    by simp
  from cf sh u1 cp on ld al c0 u2 off show ?thesis by simp
qed

section \<open>Facts about the check for multiplexing\<close>

lemma run_ok_append: "run_ok e w (a @ b) = (run_ok e w a \<and> run_ok e (w @ a) b)"
  by (induction a arbitrary: w) simp_all

lemma run_script_append:
  "run_script e w (a @ b) = (if run_ok e w a then a @ run_script e (w @ a) b else run_script e w a)"
  by (induction a arbitrary: w) simp_all

lemma run_script_ok: "run_ok e w a \<Longrightarrow> run_script e w a = a"
  by (induction a arbitrary: w) simp_all

lemma run_script_stopped: "\<not> run_ok e w a \<Longrightarrow> run_script e w a \<noteq> []"
  by (cases a) simp_all

lemma run_script_subset: "set (run_script e w a) \<subseteq> set a"
  by (induction a arbitrary: w) auto

lemma script_verdict_append:
  "script_verdict e w (a @ b) =
     (if run_ok e w a then script_verdict e (w @ a) b else script_verdict e w a)"
proof (cases "run_ok e w a")
  case False
  then show ?thesis by (simp add: script_verdict_def run_ok_append run_script_append)
next
  case a: True
  show ?thesis
  proof (cases "run_ok e (w @ a) b")
    case True
    with a show ?thesis by (simp add: script_verdict_def run_ok_append)
  next
    case False
    with a run_script_stopped [OF False] show ?thesis
      by (simp add: script_verdict_def run_ok_append run_script_append Let_def)
  qed
qed

lemma script_verdict_opens:
  assumes "\<forall>c\<in>set a. is_open c" and "\<not> run_ok e w a"
  shows "script_verdict e w a = Some False"
proof -
  from run_script_stopped [OF assms(2)] have "last (run_script e w a) \<in> set (run_script e w a)"
    by simp
  with run_script_subset [of e w a] assms(1) have "is_open (last (run_script e w a))" by auto
  with assms(2) show ?thesis by (simp add: script_verdict_def Let_def)
qed

lemma open_cycles_with_leader:
  "fds \<noteq> [] \<Longrightarrow> open_cycles e attr pid cp n fds w = (r, w') \<Longrightarrow>
   w' = w @ run_script e w
          (replicate n (Call_OpenEventFile attr pid cp (Some (perf_event_fd (fds ! 0))) ''cpu-cycles'')) \<and>
   (r \<noteq> None) = run_ok e w
          (replicate n (Call_OpenEventFile attr pid cp (Some (perf_event_fd (fds ! 0))) ''cpu-cycles'')) \<and>
   (\<forall>fds'. r = Some fds' \<longrightarrow>
      map perf_event_fd fds' = map perf_event_fd fds @ [length w..<length w + n])"
proof (induction n arbitrary: fds w)
  case 0
  then show ?case by auto
next
  case (Suc n)
  define call where "call = Call_OpenEventFile attr pid cp (Some (perf_event_fd (fds ! 0))) ''cpu-cycles''"
  have nr: "\<not> is_read call" by (simp add: call_def is_read_def)
  have co: "continues e w call = call_ok e (w @ [call])" using nr by (simp add: continues_def)
  show ?case
  proof (cases "call_ok e (w @ [call])")
    case False
    then have "open_cycles e attr pid cp (Suc n) fds w = (None, w @ [call])"
      using Suc.prems(1) by (simp add: OpenEventFile_def Let_def call_def)
    with Suc.prems(2) have "r = None" "w' = w @ [call]" by simp_all
    with False co show ?thesis unfolding call_def [symmetric] by simp
  next
    case True
    define fd where "fd = \<lparr>perf_event_fd = length w, fd_attr = attr, fd_name = ''cpu-cycles'',
                           fd_tid = pid, fd_cpu = cp,
                           fd_leader = Some (perf_event_fd (fds ! 0))\<rparr>"
    have "open_cycles e attr pid cp (Suc n) fds w =
          open_cycles e attr pid cp n (fds @ [fd]) (w @ [call])"
      using Suc.prems(1) True by (simp add: OpenEventFile_def Let_def call_def fd_def)
    with Suc.prems(2) have rec: "open_cycles e attr pid cp n (fds @ [fd]) (w @ [call]) = (r, w')"
      by simp
    have f0: "(fds @ [fd]) ! 0 = fds ! 0" using Suc.prems(1) by (cases fds) simp_all
    have ne: "fds @ [fd] \<noteq> []" by simp
    note ih = Suc.IH [OF ne rec, unfolded f0, folded call_def]
    have p: "perf_event_fd fd = length w" by (simp add: fd_def)
    have up: "[length w..<length w + Suc n] = length w # [Suc (length w)..<Suc (length w) + n]"
      by (simp add: upt_conv_Cons del: upt_Suc)
    have l1: "length (w @ [call]) = Suc (length w)" by simp
    have a1: "w' = w @ run_script e w (replicate (Suc n) call)"
      using ih True co by simp
    have a2: "(r \<noteq> None) = run_ok e w (replicate (Suc n) call)"
      using ih True co by simp
    have a3: "\<forall>fds'. r = Some fds' \<longrightarrow>
                map perf_event_fd fds' = map perf_event_fd fds @ [length w..<length w + Suc n]"
      using ih p unfolding up l1 by simp
    from a1 a2 a3 show ?thesis unfolding call_def [symmetric] by blast
  qed
qed

lemma open_cycles_first:
  assumes "open_cycles e attr pid cp (Suc n) [] w = (r, w')"
  shows "w' = w @ run_script e w
          (Call_OpenEventFile attr pid cp None ''cpu-cycles'' #
           replicate n (Call_OpenEventFile attr pid cp (Some (length w)) ''cpu-cycles'')) \<and>
   (r \<noteq> None) = run_ok e w
          (Call_OpenEventFile attr pid cp None ''cpu-cycles'' #
           replicate n (Call_OpenEventFile attr pid cp (Some (length w)) ''cpu-cycles'')) \<and>
   (\<forall>fds'. r = Some fds' \<longrightarrow> map perf_event_fd fds' = [length w..<length w + Suc n])"
proof -
  define call where "call = Call_OpenEventFile attr pid cp None ''cpu-cycles''"
  have nr: "\<not> is_read call" by (simp add: call_def is_read_def)
  have co: "continues e w call = call_ok e (w @ [call])" using nr by (simp add: continues_def)
  show ?thesis
  proof (cases "call_ok e (w @ [call])")
    case False
    then have "open_cycles e attr pid cp (Suc n) [] w = (None, w @ [call])"
      by (simp add: OpenEventFile_def Let_def call_def)
    with assms have "r = None" "w' = w @ [call]" by simp_all
    with False co show ?thesis unfolding call_def [symmetric] by simp
  next
    case True
    define fd where "fd = \<lparr>perf_event_fd = length w, fd_attr = attr, fd_name = ''cpu-cycles'',
                           fd_tid = pid, fd_cpu = cp, fd_leader = None\<rparr>"
    have "open_cycles e attr pid cp (Suc n) [] w = open_cycles e attr pid cp n [fd] (w @ [call])"
      using True by (simp add: OpenEventFile_def Let_def call_def fd_def)
    with assms have rec: "open_cycles e attr pid cp n [fd] (w @ [call]) = (r, w')" by simp
    have p: "perf_event_fd ([fd] ! 0) = length w" by (simp add: fd_def)
    have ne: "[fd] \<noteq> []" by simp
    note ih = open_cycles_with_leader [OF ne rec, unfolded p]
    have p': "perf_event_fd fd = length w" by (simp add: fd_def)
    have up: "[length w..<length w + Suc n] = length w # [Suc (length w)..<Suc (length w) + n]"
      by (simp add: upt_conv_Cons del: upt_Suc)
    have l1: "length (w @ [call]) = Suc (length w)" by simp
    define script where
      "script = replicate n (Call_OpenEventFile attr pid cp (Some (length w)) ''cpu-cycles'')"
    note ih' = ih [folded script_def]
    have a1: "w' = w @ run_script e w (call # script)"
      using ih' True co by simp
    have a2: "(r \<noteq> None) = run_ok e w (call # script)"
      using ih' True co by simp
    have a3: "\<forall>fds'. r = Some fds' \<longrightarrow> map perf_event_fd fds' = [length w..<length w + Suc n]"
      using ih' p' unfolding up l1 by simp
    from a1 a2 a3 show ?thesis unfolding call_def [symmetric] script_def [symmetric] by blast
  qed
qed

lemma check_counters_script:
  "check_counters e fds w =
     (script_verdict e w (map (\<lambda>fd. Call_ReadCounter (perf_event_fd fd)) fds),
      w @ run_script e w (map (\<lambda>fd. Call_ReadCounter (perf_event_fd fd)) fds))"
proof (induction fds arbitrary: w)
  case Nil
  show ?case by (simp add: script_verdict_def)
next
  case (Cons fd rest)
  define call where "call = Call_ReadCounter (perf_event_fd fd)"
  define script where "script = map (\<lambda>fd. Call_ReadCounter (perf_event_fd fd)) rest"
  have sc: "map (\<lambda>fd. Call_ReadCounter (perf_event_fd fd)) (fd # rest) = call # script"
    by (simp add: call_def script_def)
  have rd: "is_read call" "\<not> is_open call" by (simp_all add: call_def is_read_def is_open_def)
  have co: "continues e w call =
              (call_ok e (w @ [call]) \<and> \<not> multiplexed (read_value e (w @ [call])))"
    using rd by (simp add: continues_def)
  have v: "script_verdict e w (call # script) =
             (if continues e w call then script_verdict e (w @ [call]) script
              else script_verdict e w [call])"
    using script_verdict_append [of e w "[call]" script] by simp
  have v1: "\<not> continues e w call \<Longrightarrow>
            script_verdict e w [call] = (if call_ok e (w @ [call]) then Some False else None)"
    using rd by (simp add: script_verdict_def)
  have rs: "run_script e w (call # script) =
              call # (if continues e w call then run_script e (w @ [call]) script else [])"
    by simp
  show ?case
  proof (cases "call_ok e (w @ [call])")
    case False
    then have cc: "check_counters e (fd # rest) w = (None, w @ [call])"
      by (simp add: ReadCounter_def Let_def call_def)
    have nc: "\<not> continues e w call" using False co by simp
    show ?thesis unfolding sc cc v rs using nc v1 False by simp
  next
    case ok: True
    show ?thesis
    proof (cases "multiplexed (read_value e (w @ [call]))")
      case True
      then have cc: "check_counters e (fd # rest) w = (Some False, w @ [call])"
        using ok by (simp add: ReadCounter_def Let_def call_def multiplexed_def)
      have nc: "\<not> continues e w call" using True co by simp
      show ?thesis unfolding sc cc v rs using nc v1 ok by simp
    next
      case False
      then have cc: "check_counters e (fd # rest) w = check_counters e rest (w @ [call])"
        using ok by (simp add: ReadCounter_def Let_def call_def multiplexed_def)
      have yc: "continues e w call" using False ok co by simp
      show ?thesis
        unfolding sc cc v rs Cons.IH [of "w @ [call]", folded script_def] using yc by simp
    qed
  qed
qed

lemma open_cycles_numeral:
  "open_cycles e attr pid cp (numeral k) fds w =
     (case OpenEventFile e w attr pid cp (if fds = [] then None else Some (fds ! 0))
             ''cpu-cycles'' of
        (None, w') \<Rightarrow> (None, w')
      | (Some event_fd, w') \<Rightarrow> open_cycles e attr pid cp (pred_numeral k) (fds @ [event_fd]) w')"
  by (simp add: numeral_eq_Suc Let_def)

lemma map_read_upt:
  "map (\<lambda>fd. Call_ReadCounter (perf_event_fd fd)) fds = map Call_ReadCounter (map perf_event_fd fds)"
  by simp

lemma map_shift_upt: "map (\<lambda>i. f (a + i)) [0..<n] = map f [a..<a + n]"
proof -
  have "[a..<a + n] = map (\<lambda>i. i + a) [0..<n]" using map_add_upt [of a n] by (simp add: add.commute)
  then show ?thesis by (simp add: comp_def add.commute)
qed

lemma CheckHardwareCountersOnCpu_script:
  "CheckHardwareCountersOnCpu e cp n w =
     (if n = 0 then (Some True, w)
      else if FindEventTypeByName e ''cpu-cycles'' = None then (None, w)
      else (script_verdict e w (check_script e cp n w),
            w @ run_script e w (check_script e cp n w)))"
proof (cases "n = 0")
  case True
  then show ?thesis by (simp add: CheckHardwareCountersOnCpu_def)
next
  case n0: False
  then obtain m where n: "n = Suc m" by (cases n) auto
  show ?thesis
  proof (cases "FindEventTypeByName e ''cpu-cycles''")
    case None
    with n0 show ?thesis by (simp add: CheckHardwareCountersOnCpu_def)
  next
    case (Some event)
    define attr where "attr = (CreateDefaultPerfEventAttr e event)\<lparr>exclude_kernel := True\<rparr>"
    define pid where "pid = GetPid e (w @ [Call_CreateWorkload])"
    define cw where "cw = [Call_CreateWorkload]"
    define af where "af = [Call_SetCpuAffinity cp]"
    define opens where "opens = Call_OpenEventFile attr pid cp None ''cpu-cycles'' #
              replicate m (Call_OpenEventFile attr pid cp (Some (length w + 2)) ''cpu-cycles'')"
    define st where "st = [Call_Start]"
    define wt where "wt = [Call_WaitChildProcess]"
    define reads where "reads = map (\<lambda>i. Call_ReadCounter (length w + 2 + i)) [0..<n]"
    have script: "check_script e cp n w = cw @ af @ opens @ st @ wt @ reads"
      using Some n
      by (simp add: check_script_def Let_def attr_def pid_def cw_def af_def opens_def st_def
            wt_def reads_def)
    have sv: "\<And>w'. script_verdict e w' cw = (if call_ok e (w' @ cw) then Some True else None)"
         "\<And>w'. script_verdict e w' af = (if call_ok e (w' @ af) then Some True else None)"
         "\<And>w'. script_verdict e w' st = (if call_ok e (w' @ st) then Some True else None)"
         "\<And>w'. script_verdict e w' wt = (if call_ok e (w' @ wt) then Some True else None)"
      by (simp_all add: cw_def af_def st_def wt_def script_verdict_def continues_def
            is_open_def is_read_def Let_def)
    have ro: "\<And>w'. run_ok e w' cw = call_ok e (w' @ cw)"
         "\<And>w'. run_ok e w' af = call_ok e (w' @ af)"
         "\<And>w'. run_ok e w' st = call_ok e (w' @ st)"
         "\<And>w'. run_ok e w' wt = call_ok e (w' @ wt)"
      by (simp_all add: cw_def af_def st_def wt_def continues_def is_read_def)
    have rs: "\<And>w'. run_script e w' cw = cw" "\<And>w'. run_script e w' af = af"
         "\<And>w'. run_script e w' st = st" "\<And>w'. run_script e w' wt = wt"
      by (simp_all add: cw_def af_def st_def wt_def)
    have op: "\<forall>c\<in>set opens. is_open c" by (auto simp: opens_def is_open_def)
    obtain r3 w3 where oc: "open_cycles e attr pid cp (Suc m) [] (w @ cw @ af) = (r3, w3)"
      by (cases "open_cycles e attr pid cp (Suc m) [] (w @ cw @ af)") simp
    have l2: "length (w @ cw @ af) = length w + 2" by (simp add: cw_def af_def)
    note f = open_cycles_first [OF oc, unfolded l2, folded opens_def]
    have w3: "w3 = w @ cw @ af @ run_script e (w @ cw @ af) opens" using f by simp
    have r3: "(r3 \<noteq> None) = run_ok e (w @ cw @ af) opens" using f by simp
    have code: "CheckHardwareCountersOnCpu e cp n w =
      (if \<not> call_ok e (w @ cw) then (None, w @ cw)
       else if \<not> call_ok e (w @ cw @ af) then (None, w @ cw @ af)
       else case r3 of
              None \<Rightarrow> (Some False, w3)
            | Some fds \<Rightarrow>
                if \<not> call_ok e (w3 @ st) then (None, w3 @ st)
                else if \<not> call_ok e (w3 @ st @ wt) then (None, w3 @ st @ wt)
                else check_counters e fds (w3 @ st @ wt))"
      using n0 Some n oc
      by (simp add: CheckHardwareCountersOnCpu_def workload_call_def Let_def attr_def pid_def
            cw_def af_def st_def wt_def split: option.splits)
    show ?thesis
    proof (cases "call_ok e (w @ cw)")
      case False
      with code n0 Some show ?thesis
        by (simp add: script script_verdict_append run_script_append sv ro rs)
    next
      case k1: True
      show ?thesis
      proof (cases "call_ok e (w @ cw @ af)")
        case False
        with code n0 Some k1 show ?thesis
          by (simp add: script script_verdict_append run_script_append sv ro rs)
      next
        case k2: True
        show ?thesis
        proof (cases r3)
          case None
          with r3 have nro: "\<not> run_ok e (w @ cw @ af) opens" by simp
          from script_verdict_opens [OF op nro]
          have "script_verdict e (w @ cw @ af) opens = Some False" .
          with code n0 Some k1 k2 None nro w3 show ?thesis
            by (simp add: script script_verdict_append run_script_append sv ro rs)
        next
          case (Some fds)
          with r3 have oro: "run_ok e (w @ cw @ af) opens" by simp
          then have w3': "w3 = w @ cw @ af @ opens" using w3 by (simp add: run_script_ok)
          from f Some have pf: "map perf_event_fd fds = [length w + 2..<length w + 2 + Suc m]"
            by blast
          have rd: "map (\<lambda>fd. Call_ReadCounter (perf_event_fd fd)) fds = reads"
            unfolding map_read_upt pf reads_def n
            by (rule map_shift_upt [of Call_ReadCounter "length w + 2" "Suc m", symmetric])
          show ?thesis
          proof (cases "call_ok e (w3 @ st)")
            case False
            with code n0 \<open>FindEventTypeByName e ''cpu-cycles'' = Some event\<close> k1 k2 Some oro w3'
            show ?thesis
              by (simp add: script script_verdict_append run_script_append sv ro rs)
          next
            case k4: True
            show ?thesis
            proof (cases "call_ok e (w3 @ st @ wt)")
              case False
              with code n0 \<open>FindEventTypeByName e ''cpu-cycles'' = Some event\<close> k1 k2 Some oro w3' k4
              show ?thesis
                by (simp add: script script_verdict_append run_script_append sv ro rs)
            next
              case k5: True
              have "CheckHardwareCountersOnCpu e cp n w = check_counters e fds (w3 @ st @ wt)"
                using code k1 k2 Some k4 k5 by simp
              also have "\<dots> = (script_verdict e (w3 @ st @ wt) reads,
                               (w3 @ st @ wt) @ run_script e (w3 @ st @ wt) reads)"
                unfolding check_counters_script rd ..
              finally show ?thesis
                using n0 \<open>FindEventTypeByName e ''cpu-cycles'' = Some event\<close> k1 k2 oro w3' k4 k5
                by (simp add: script script_verdict_append run_script_append sv ro rs run_ok_append)
            qed
          qed
        qed
      qed
    qed
  qed
qed

lemma check_script_opens:
  "0 < n \<Longrightarrow> FindEventTypeByName e ''cpu-cycles'' \<noteq> None \<Longrightarrow>
   map (\<lambda>c. (open_cpu c, open_name c)) (filter is_open (check_script e cp n w)) =
     replicate n (Some cp, Some ''cpu-cycles'')"
proof -
  assume n: "0 < n" and f: "FindEventTypeByName e ''cpu-cycles'' \<noteq> None"
  then obtain event where ev: "FindEventTypeByName e ''cpu-cycles'' = Some event" by auto
  obtain m where m: "n = Suc m" using n by (cases n) auto
  have r: "filter is_open (map (\<lambda>i. Call_ReadCounter (length w + 2 + i)) [0..<n]) = []"
    by (simp add: is_open_def filter_empty_conv)
  show ?thesis
    using ev m r
    by (simp add: check_script_def Let_def is_open_def open_cpu_def open_name_def)
qed

lemma script_verdict_True: "script_verdict e w a = Some True \<longleftrightarrow> run_ok e w a"
  by (simp add: script_verdict_def Let_def)

lemma checks_upto_Cons:
  "checks_upto e (x # m) w (Suc k) =
   checks_upto e m (snd (CheckHardwareCountersOnCpu e (fst x) (snd x) w)) k"
  by (simp add: checks_upto_def)

lemma warns_at_0:
  "warns_at e (x # m) w 0 \<longleftrightarrow> fst (CheckHardwareCountersOnCpu e (fst x) (snd x) w) = Some False"
  by (simp add: warns_at_def checks_upto_def)

lemma warns_at_Suc:
  "warns_at e (x # m) w (Suc k) \<longleftrightarrow>
   warns_at e m (snd (CheckHardwareCountersOnCpu e (fst x) (snd x) w)) k"
  by (simp add: warns_at_def checks_upto_def)

lemma check_cpus_step:
  "check_cpus e (x # m) w =
     (if fst (CheckHardwareCountersOnCpu e (fst x) (snd x) w) = Some False
      then (True, snd (CheckHardwareCountersOnCpu e (fst x) (snd x) w))
      else check_cpus e m (snd (CheckHardwareCountersOnCpu e (fst x) (snd x) w)))"
  by (cases x; cases "CheckHardwareCountersOnCpu e (fst x) (snd x) w")
     (auto split: option.splits bool.splits)

lemma check_cpus_first_warning:
  "warns_at e m w k \<Longrightarrow> \<forall>j<k. \<not> warns_at e m w j \<Longrightarrow>
   check_cpus e m w = (True, checks_upto e m w (Suc k))"
proof (induction m arbitrary: w k)
  case Nil
  then show ?case by (simp add: warns_at_def)
next
  case (Cons x m)
  show ?case
  proof (cases k)
    case 0
    with Cons.prems(1) show ?thesis
      by (simp add: warns_at_0 check_cpus_step checks_upto_def)
  next
    case (Suc k')
    with Cons.prems(2) have n0: "\<not> warns_at e (x # m) w 0" by simp
    let ?w1 = "snd (CheckHardwareCountersOnCpu e (fst x) (snd x) w)"
    have a: "warns_at e m ?w1 k'" using Cons.prems(1) Suc by (simp add: warns_at_Suc)
    have b: "\<forall>j<k'. \<not> warns_at e m ?w1 j"
    proof (intro allI impI)
      fix j assume "j < k'"
      then have "Suc j < k" using Suc by simp
      with Cons.prems(2) have "\<not> warns_at e (x # m) w (Suc j)" by simp
      then show "\<not> warns_at e m ?w1 j" by (simp add: warns_at_Suc)
    qed
    from Cons.IH [OF a b] n0 Suc show ?thesis
      by (simp add: warns_at_0 check_cpus_step checks_upto_Cons)
  qed
qed

lemma check_cpus_no_warning:
  "\<forall>k. \<not> warns_at e m w k \<Longrightarrow> check_cpus e m w = (False, checks_upto e m w (length m))"
proof (induction m arbitrary: w)
  case Nil
  show ?case by (simp add: checks_upto_def)
next
  case (Cons x m)
  let ?w1 = "snd (CheckHardwareCountersOnCpu e (fst x) (snd x) w)"
  from Cons.prems have n0: "\<not> warns_at e (x # m) w 0" by simp
  have "\<forall>k. \<not> warns_at e m ?w1 k"
  proof
    fix k
    from Cons.prems have "\<not> warns_at e (x # m) w (Suc k)" by simp
    then show "\<not> warns_at e m ?w1 k" by (simp add: warns_at_Suc)
  qed
  from Cons.IH [OF this] n0 show ?case
    by (simp add: warns_at_0 check_cpus_step checks_upto_Cons)
qed

lemma check_cpus_warns_iff: "fst (check_cpus e m w) \<longleftrightarrow> (\<exists>k. warns_at e m w k)"
proof
  assume f: "fst (check_cpus e m w)"
  show "\<exists>k. warns_at e m w k"
  proof (rule ccontr)
    assume "\<not> (\<exists>k. warns_at e m w k)"
    then have "\<forall>k. \<not> warns_at e m w k" by simp
    from check_cpus_no_warning [OF this] f show False by simp
  qed
next
  assume "\<exists>k. warns_at e m w k"
  then obtain k where "warns_at e m w k" "\<forall>j<k. \<not> warns_at e m w j"
    using exists_least_iff [of "warns_at e m w"] by auto
  from check_cpus_first_warning [OF this] show "fst (check_cpus e m w)" by simp
qed

lemma run_script_prefix: "\<exists>rest. a = run_script e w a @ rest"
  by (induction a arbitrary: w) auto

lemma check_calls_opens:
  "\<exists>calls. snd (CheckHardwareCountersOnCpu e cp n w) = w @ calls \<and>
     length (filter is_open calls) \<le> n \<and>
     (\<forall>c\<in>set calls. is_open c \<longrightarrow> open_cpu c = Some cp \<and> open_name c = Some ''cpu-cycles'')"
proof (cases "n = 0 \<or> FindEventTypeByName e ''cpu-cycles'' = None")
  case True
  then have "snd (CheckHardwareCountersOnCpu e cp n w) = w @ []"
    unfolding CheckHardwareCountersOnCpu_script by (cases "n = 0") simp_all
  then show ?thesis by (intro exI [of _ "[]"]) simp
next
  case False
  then obtain event where ev: "FindEventTypeByName e ''cpu-cycles'' = Some event"
    and n0: "0 < n" by auto
  define script where "script = check_script e cp n w"
  define calls where "calls = run_script e w script"
  have s: "snd (CheckHardwareCountersOnCpu e cp n w) = w @ calls"
    unfolding CheckHardwareCountersOnCpu_script calls_def script_def using ev n0 by simp
  from run_script_prefix [of script e w] obtain rest where r: "script = calls @ rest"
    unfolding calls_def by (elim exE)
  have o: "map (\<lambda>c. (open_cpu c, open_name c)) (filter is_open script) =
             replicate n (Some cp, Some ''cpu-cycles'')"
    unfolding script_def using n0 ev by (intro check_script_opens) simp_all
  have "length (map (\<lambda>c. (open_cpu c, open_name c)) (filter is_open script)) = n"
    unfolding o by simp
  then have "length (filter is_open script) = n" by simp
  then have l: "length (filter is_open calls) \<le> n" unfolding r by simp
  have p: "open_cpu c = Some cp \<and> open_name c = Some ''cpu-cycles''"
    if "c \<in> set calls" "is_open c" for c
  proof -
    from that have "c \<in> set (filter is_open script)" unfolding r by simp
    then have "(open_cpu c, open_name c) \<in>
                 set (map (\<lambda>c. (open_cpu c, open_name c)) (filter is_open script))"
      by (simp only: set_map) (rule imageI)
    then have "(open_cpu c, open_name c) \<in> set (replicate n (Some cp, Some ''cpu-cycles''))"
      unfolding o .
    then show ?thesis by simp
  qed
  show ?thesis
  proof (intro exI [of _ calls] conjI ballI impI)
    show "snd (CheckHardwareCountersOnCpu e cp n w) = w @ calls" by (rule s)
    show "length (filter is_open calls) \<le> n" by (rule l)
    fix c assume "c \<in> set calls" "is_open c"
    from p [OF this] show "open_cpu c = Some cp" and "open_name c = Some ''cpu-cycles''"
      by simp_all
  qed
qed

lemma cpu_map_add_keys: "set (map fst (cpu_map_add c n m)) = insert c (set (map fst m))"
proof (induction m)
  case Nil
  show ?case by simp
next
  case (Cons x m)
  obtain k v where x: "x = (k, v)" by (cases x) simp
  show ?case
    using Cons x by (cases "c = k"; cases "c < k") (simp_all add: insert_commute)
qed

lemma cpu_map_add_sorted:
  "sorted_wrt (<) (map fst m) \<Longrightarrow> sorted_wrt (<) (map fst (cpu_map_add c n m))"
proof (induction m)
  case Nil
  show ?case by simp
next
  case (Cons x m)
  obtain k v where x: "x = (k, v)" by (cases x) simp
  have "\<forall>y\<in>set (map fst (cpu_map_add c n m)). k < y" if "k < c"
    unfolding cpu_map_add_keys using Cons.prems that x by simp
  then have "\<forall>y\<in>set (cpu_map_add c n m). k < fst y" if "k < c"
    using that by simp
  with Cons x show ?case by (cases "c = k"; cases "c < k") auto
qed

lemma cpu_map_add_val:
  "sorted_wrt (<) (map fst m) \<Longrightarrow>
   map_val (cpu_map_add c n m) x = map_val m x + (if x = c then n else 0)"
proof (induction m)
  case Nil
  show ?case by (simp add: map_val_def)
next
  case (Cons y m)
  obtain k v where y: "y = (k, v)" by (cases y) simp
  have notin: "map_of m c = None" if "c < k"
  proof -
    have "c \<notin> set (map fst m)" using Cons.prems that y by auto
    then show ?thesis by (simp add: map_of_eq_None_iff)
  qed
  from Cons y notin show ?case by (auto simp: map_val_def)
qed

lemma fold_cpu_map_add:
  "sorted_wrt (<) (map fst m) \<Longrightarrow>
   sorted_wrt (<) (map fst (fold (\<lambda>c m. cpu_map_add c n m) cs m)) \<and>
   set (map fst (fold (\<lambda>c m. cpu_map_add c n m) cs m)) = set (map fst m) \<union> set cs \<and>
   (\<forall>x. map_val (fold (\<lambda>c m. cpu_map_add c n m) cs m) x = map_val m x + count_list cs x * n)"
proof (induction cs arbitrary: m)
  case Nil
  then show ?case by simp
next
  case (Cons c cs)
  have s: "sorted_wrt (<) (map fst (cpu_map_add c n m))"
    using Cons.prems by (rule cpu_map_add_sorted)
  from Cons.IH [OF s] cpu_map_add_val [OF Cons.prems, of c n] cpu_map_add_keys [of c n m]
  show ?case by (auto simp: algebra_simps)
qed

lemma fold_groups_cpu_map:
  "sorted_wrt (<) (map fst m) \<Longrightarrow>
   sorted_wrt (<) (map fst (fold (\<lambda>grp cpu_map.
        fold (\<lambda>c m. cpu_map_add c (hardware_events grp) m) (count_cpus e grp) cpu_map) gs m)) \<and>
   set (map fst (fold (\<lambda>grp cpu_map.
        fold (\<lambda>c m. cpu_map_add c (hardware_events grp) m) (count_cpus e grp) cpu_map) gs m))
     = set (map fst m) \<union> (\<Union>grp\<in>set gs. set (count_cpus e grp)) \<and>
   (\<forall>x. map_val (fold (\<lambda>grp cpu_map.
        fold (\<lambda>c m. cpu_map_add c (hardware_events grp) m) (count_cpus e grp) cpu_map) gs m) x
      = map_val m x +
        sum_list (map (\<lambda>grp. count_list (count_cpus e grp) x * hardware_events grp) gs))"
proof (induction gs arbitrary: m)
  case Nil
  then show ?case by simp
next
  case (Cons g gs)
  let ?m1 = "fold (\<lambda>c m. cpu_map_add c (hardware_events g) m) (count_cpus e g) m"
  from fold_cpu_map_add [OF Cons.prems, of "hardware_events g" "count_cpus e g"]
  have s1: "sorted_wrt (<) (map fst ?m1)"
    and k1: "set (map fst ?m1) = set (map fst m) \<union> set (count_cpus e g)"
    and v1: "\<And>x. map_val ?m1 x = map_val m x + count_list (count_cpus e g) x * hardware_events g"
    by simp_all
  from Cons.IH [OF s1] k1 v1 show ?case by (auto simp: algebra_simps)
qed

lemma GetHardwareCountersForCpus_fold:
  "GetHardwareCountersForCpus e s =
     fold (\<lambda>grp cpu_map.
        fold (\<lambda>c m. cpu_map_add c (hardware_events grp) m) (count_cpus e grp) cpu_map)
       (groups s) []"
  by (simp add: GetHardwareCountersForCpus_def hardware_events_def count_cpus_def Let_def)

lemma GetHardwareCountersForCpus_map:
  "sorted_wrt (<) (map fst (GetHardwareCountersForCpus e s)) \<and>
   set (map fst (GetHardwareCountersForCpus e s)) = (\<Union>grp\<in>set (groups s). set (count_cpus e grp)) \<and>
   (\<forall>c n. (c, n) \<in> set (GetHardwareCountersForCpus e s) \<longrightarrow> n = requested_count e s c)"
proof -
  let ?m = "GetHardwareCountersForCpus e s"
  from fold_groups_cpu_map [of "[]" e "groups s"]
  have s: "sorted_wrt (<) (map fst ?m)"
    and k: "set (map fst ?m) = (\<Union>grp\<in>set (groups s). set (count_cpus e grp))"
    and v: "\<And>x. map_val ?m x = requested_count e s x"
    unfolding GetHardwareCountersForCpus_fold requested_count_def by (simp_all add: map_val_def)
  have d: "distinct (map fst ?m)" using s by (simp add: strict_sorted_iff)
  have "n = requested_count e s c" if "(c, n) \<in> set ?m" for c n
  proof -
    from that d have "map_of ?m c = Some n" by simp
    then have "map_val ?m c = n" by (simp add: map_val_def)
    with v show ?thesis by simp
  qed
  with s k show ?thesis by blast
qed

text \<open>
  C1, as the code has it. The map of \<^verbatim>\<open>GetHardwareCountersForCpus\<close> has, in ascending
  order, one entry for every cpu of every group's list (the online cpus for a group
  without a list), with the number of hardware events requested on it. The stat command
  runs the checks of these cpus in that order, each after the calls of those before it.
  The warning is logged exactly when one of these checks returns false. When the check of
  entry \<open>k\<close> is the first to do so, the calls made are those of the checks of the entries
  up to \<open>k\<close>: no later cpu is checked. When no check returns false, every entry is checked. One check
  of \<open>n\<close> counters on a cpu makes no call when \<open>n\<close> is 0 (and returns true) or when the
  event type cpu-cycles is not known (and has no answer). Otherwise it makes the calls of
  its list in order, up to and including the first that stops it: the workload is created
  and pinned, \<open>n\<close> cpu-cycles events are opened on that cpu, the workload is started and
  waited for, and the \<open>n\<close> counters are read. So it opens at most \<open>n\<close> events, all of
  them cpu-cycles events on that cpu. It returns true when no call stops it, and then all
  \<open>n\<close> events were opened; false when the call that stops it is an open that
  failed or a counter read that succeeded and shows \<^verbatim>\<open>time_enabled == 0\<close> or
  \<^verbatim>\<open>time_enabled > time_running\<close>; and it has no answer when a call on the workload or
  a counter read fails.
\<close>

theorem multiplexing_check_opens_requested_count:
  "(sorted_wrt (<) (map fst (GetHardwareCountersForCpus e s)) \<and>
    set (map fst (GetHardwareCountersForCpus e s)) =
      (\<Union>grp\<in>set (groups s). set (count_cpus e grp)) \<and>
    (\<forall>c h. (c, h) \<in> set (GetHardwareCountersForCpus e s) \<longrightarrow> h = requested_count e s c)) \<and>
   (fst (CheckHardwareCounterMultiplexing e s w) \<longleftrightarrow>
      (\<exists>i. warns_at e (GetHardwareCountersForCpus e s) w i)) \<and>
   (warns_at e (GetHardwareCountersForCpus e s) w k \<and>
    (\<forall>j<k. \<not> warns_at e (GetHardwareCountersForCpus e s) w j) \<longrightarrow>
      CheckHardwareCounterMultiplexing e s w =
        (True, checks_upto e (GetHardwareCountersForCpus e s) w (Suc k))) \<and>
   ((\<forall>k. \<not> warns_at e (GetHardwareCountersForCpus e s) w k) \<longrightarrow>
      CheckHardwareCounterMultiplexing e s w =
        (False, checks_upto e (GetHardwareCountersForCpus e s) w
                  (length (GetHardwareCountersForCpus e s)))) \<and>
   CheckHardwareCountersOnCpu e cp n w0 =
     (if n = 0 then (Some True, w0)
      else if FindEventTypeByName e ''cpu-cycles'' = None then (None, w0)
      else (script_verdict e w0 (check_script e cp n w0),
            w0 @ run_script e w0 (check_script e cp n w0))) \<and>
   (0 < n \<and> FindEventTypeByName e ''cpu-cycles'' \<noteq> None \<longrightarrow>
      map (\<lambda>c. (open_cpu c, open_name c)) (filter is_open (check_script e cp n w0)) =
        replicate n (Some cp, Some ''cpu-cycles'') \<and>
      (fst (CheckHardwareCountersOnCpu e cp n w0) = Some True \<longrightarrow>
         snd (CheckHardwareCountersOnCpu e cp n w0) = w0 @ check_script e cp n w0)) \<and>
   (\<exists>calls. snd (CheckHardwareCountersOnCpu e cp n w0) = w0 @ calls \<and>
      length (filter is_open calls) \<le> n \<and>
      (\<forall>c\<in>set calls. is_open c \<longrightarrow>
         open_cpu c = Some cp \<and> open_name c = Some ''cpu-cycles''))"
proof (intro conjI impI)
  show "sorted_wrt (<) (map fst (GetHardwareCountersForCpus e s))"
    and "set (map fst (GetHardwareCountersForCpus e s)) =
      (\<Union>grp\<in>set (groups s). set (count_cpus e grp))"
    and "\<forall>c h. (c, h) \<in> set (GetHardwareCountersForCpus e s) \<longrightarrow> h = requested_count e s c"
    using GetHardwareCountersForCpus_map [of e s] by simp_all
next
  show "fst (CheckHardwareCounterMultiplexing e s w) \<longleftrightarrow>
      (\<exists>i. warns_at e (GetHardwareCountersForCpus e s) w i)"
    unfolding CheckHardwareCounterMultiplexing_def by (rule check_cpus_warns_iff)
next
  assume "warns_at e (GetHardwareCountersForCpus e s) w k \<and>
          (\<forall>j<k. \<not> warns_at e (GetHardwareCountersForCpus e s) w j)"
  then show "CheckHardwareCounterMultiplexing e s w =
        (True, checks_upto e (GetHardwareCountersForCpus e s) w (Suc k))"
    unfolding CheckHardwareCounterMultiplexing_def by (simp add: check_cpus_first_warning)
next
  assume "\<forall>k. \<not> warns_at e (GetHardwareCountersForCpus e s) w k"
  then show "CheckHardwareCounterMultiplexing e s w =
        (False, checks_upto e (GetHardwareCountersForCpus e s) w
                  (length (GetHardwareCountersForCpus e s)))"
    unfolding CheckHardwareCounterMultiplexing_def by (rule check_cpus_no_warning)
next
  show "CheckHardwareCountersOnCpu e cp n w0 =
     (if n = 0 then (Some True, w0)
      else if FindEventTypeByName e ''cpu-cycles'' = None then (None, w0)
      else (script_verdict e w0 (check_script e cp n w0),
            w0 @ run_script e w0 (check_script e cp n w0)))"
    by (rule CheckHardwareCountersOnCpu_script)
next
  assume "0 < n \<and> FindEventTypeByName e ''cpu-cycles'' \<noteq> None"
  then show "map (\<lambda>c. (open_cpu c, open_name c)) (filter is_open (check_script e cp n w0)) =
        replicate n (Some cp, Some ''cpu-cycles'')"
    by (simp add: check_script_opens)
next
  assume a: "0 < n \<and> FindEventTypeByName e ''cpu-cycles'' \<noteq> None"
    and t: "fst (CheckHardwareCountersOnCpu e cp n w0) = Some True"
  from a obtain event where ev: "FindEventTypeByName e ''cpu-cycles'' = Some event" by auto
  with a t have "run_ok e w0 (check_script e cp n w0)"
    by (simp add: CheckHardwareCountersOnCpu_script script_verdict_True)
  with a ev show "snd (CheckHardwareCountersOnCpu e cp n w0) = w0 @ check_script e cp n w0"
    by (simp add: CheckHardwareCountersOnCpu_script run_script_ok)
next
  show "\<exists>calls. snd (CheckHardwareCountersOnCpu e cp n w0) = w0 @ calls \<and>
      length (filter is_open calls) \<le> n \<and>
      (\<forall>c\<in>set calls. is_open c \<longrightarrow>
         open_cpu c = Some cp \<and> open_name c = Some ''cpu-cycles'')"
    by (rule check_calls_opens)
qed

lemmas check_defs =
  CheckHardwareCounterMultiplexing_def GetHardwareCountersForCpus_def
  CheckHardwareCountersOnCpu_def workload_call_def OpenEventFile_def ReadCounter_def
  open_cpu_def is_open_def open_pair_def open_cycles_numeral

lemma example_cpu_map: "GetHardwareCountersForCpus example_env example_set = [(0, 2), (1, 2)]"
  by (simp add: example_set_def example_defs check_defs Let_def)

lemma example_check_cpu0:
  "fst (CheckHardwareCountersOnCpu example_env 0 2 []) = Some False \<and>
   map open_pair (filter is_open (snd (CheckHardwareCountersOnCpu example_env 0 2 [])))
     = [Some (100, 0), Some (100, 0)] \<and>
   filter (\<lambda>c. \<not> is_open c) (snd (CheckHardwareCountersOnCpu example_env 0 2 []))
     = [Call_CreateWorkload, Call_SetCpuAffinity 0, Call_Start, Call_WaitChildProcess,
        Call_ReadCounter 2]"
  by (simp add: example_env_def example_find_def example_types_def hw_type_def sw_type_def
        zero_attr_def check_defs Let_def)

theorem multiplexing_check_opens_requested_count_witness:
  "GetHardwareCountersForCpus example_env example_set = [(0, 2), (1, 2)] \<and>
   requested_count example_env example_set 0 = 2 \<and>
   fst (CheckHardwareCountersOnCpu example_env 0 2 []) = Some False \<and>
   map open_pair (filter is_open (snd (CheckHardwareCountersOnCpu example_env 0 2 [])))
     = [Some (100, 0), Some (100, 0)] \<and>
   filter (\<lambda>c. \<not> is_open c) (snd (CheckHardwareCountersOnCpu example_env 0 2 []))
     = [Call_CreateWorkload, Call_SetCpuAffinity 0, Call_Start, Call_WaitChildProcess,
        Call_ReadCounter 2] \<and>
   snd (CheckHardwareCountersOnCpu example_env 0 2 [])
     = run_script example_env [] (check_script example_env 0 2 []) \<and>
   time_running (read_value example_env (snd (CheckHardwareCountersOnCpu example_env 0 2 [])))
     < time_enabled (read_value example_env (snd (CheckHardwareCountersOnCpu example_env 0 2 []))) \<and>
   CheckHardwareCounterMultiplexing example_env example_set []
     = (True, snd (CheckHardwareCountersOnCpu example_env 0 2 [])) \<and>
   fst (CheckHardwareCountersOnCpu example_env_steady 0 2 []) = Some True \<and>
   snd (CheckHardwareCountersOnCpu example_env_steady 0 2 [])
     = check_script example_env_steady 0 2 [] \<and>
   map open_pair (filter is_open (snd (CheckHardwareCountersOnCpu example_env_steady 0 2 [])))
     = [Some (100, 0), Some (100, 0)] \<and>
   filter is_read (snd (CheckHardwareCountersOnCpu example_env_steady 0 2 []))
     = [Call_ReadCounter 2, Call_ReadCounter 3] \<and>
   CheckHardwareCounterMultiplexing example_env_steady example_set []
     = (False, snd (CheckHardwareCountersOnCpu example_env_steady 1 2
                      (snd (CheckHardwareCountersOnCpu example_env_steady 0 2 [])))) \<and>
   map open_pair (filter is_open
       (snd (CheckHardwareCounterMultiplexing example_env_steady example_set [])))
     = [Some (100, 0), Some (100, 0), Some (100, 1), Some (100, 1)]"
proof -
  let ?m = "GetHardwareCountersForCpus example_env example_set"
  let ?r = "CheckHardwareCountersOnCpu example_env 0 2 []"
  let ?q = "CheckHardwareCountersOnCpu example_env_steady 0 2 []"
  have wa: "warns_at example_env ?m [] 0 \<and> (\<forall>j<0. \<not> warns_at example_env ?m [] j)"
    using example_check_cpu0 by (simp add: example_cpu_map warns_at_def checks_upto_def)
  have fe: "FindEventTypeByName example_env ''cpu-cycles'' \<noteq> None"
    by (simp add: example_env_def example_find_def example_types_def hw_type_def)
  have fs: "FindEventTypeByName example_env_steady ''cpu-cycles'' \<noteq> None"
    by (simp add: example_env_steady_def example_env_def example_find_def example_types_def
          hw_type_def)
  have qt: "fst ?q = Some True \<and>
            map open_pair (filter is_open (snd ?q)) = [Some (100, 0), Some (100, 0)] \<and>
            filter is_read (snd ?q) = [Call_ReadCounter 2, Call_ReadCounter 3]"
    by (simp add: example_env_steady_def example_env_def example_find_def example_types_def
          hw_type_def sw_type_def zero_attr_def check_defs is_read_def Let_def)
  have tr: "\<And>w. time_running (read_value example_env w) < time_enabled (read_value example_env w)"
    by (simp add: example_env_def)
  note t = multiplexing_check_opens_requested_count
             [where e = example_env and s = example_set and w = "[]" and k = 0 and cp = 0
                and n = 2 and ?w0.0 = "[]"]
  note u = multiplexing_check_opens_requested_count
             [where e = example_env_steady and s = example_set and w = "[]" and k = 0
                and cp = 0 and n = 2 and ?w0.0 = "[]"]
  from t wa have "CheckHardwareCounterMultiplexing example_env example_set []
                  = (True, checks_upto example_env ?m [] (Suc 0))"
    by simp
  then have warn: "CheckHardwareCounterMultiplexing example_env example_set [] = (True, snd ?r)"
    by (simp add: example_cpu_map checks_upto_def)
  from t have "\<forall>c h. (c, h) \<in> set ?m \<longrightarrow> h = requested_count example_env example_set c"
    by simp
  then have rq: "requested_count example_env example_set 0 = 2"
    using example_cpu_map by simp
  from t fe have sc: "snd ?r = run_script example_env [] (check_script example_env 0 2 [])"
    by simp
  have ms: "GetHardwareCountersForCpus example_env_steady example_set = [(0, 2), (1, 2)]"
    by (simp add: example_env_steady_def example_set_def example_defs check_defs Let_def)
  have q1: "fst (CheckHardwareCountersOnCpu example_env_steady 1 2 (snd ?q)) = Some True \<and>
            map open_pair (filter is_open
              (snd (CheckHardwareCountersOnCpu example_env_steady 1 2 (snd ?q))))
            = [Some (100, 0), Some (100, 0), Some (100, 1), Some (100, 1)]"
    by (simp add: example_env_steady_def example_env_def example_find_def example_types_def
          hw_type_def sw_type_def zero_attr_def check_defs is_read_def Let_def)
  have nw: "\<forall>k. \<not> warns_at example_env_steady
                  (GetHardwareCountersForCpus example_env_steady example_set) [] k"
  proof
    fix k
    show "\<not> warns_at example_env_steady
                  (GetHardwareCountersForCpus example_env_steady example_set) [] k"
    proof (cases k)
      case 0
      with qt show ?thesis unfolding ms by (simp add: warns_at_0)
    next
      case (Suc j)
      with q1 show ?thesis unfolding ms
        by (cases j) (simp_all add: warns_at_Suc warns_at_0, simp add: warns_at_def)
    qed
  qed
  from u nw have "CheckHardwareCounterMultiplexing example_env_steady example_set []
                  = (False, checks_upto example_env_steady
                       (GetHardwareCountersForCpus example_env_steady example_set) []
                       (length (GetHardwareCountersForCpus example_env_steady example_set)))"
    by blast
  then have calm: "CheckHardwareCounterMultiplexing example_env_steady example_set []
                  = (False, snd (CheckHardwareCountersOnCpu example_env_steady 1 2 (snd ?q)))"
    unfolding ms by (simp add: checks_upto_def)
  note u5 = u [THEN conjunct2, THEN conjunct2, THEN conjunct2, THEN conjunct2, THEN conjunct2,
               THEN conjunct1]
  from u5 fs qt have all: "snd ?q = check_script example_env_steady 0 2 []"
    by simp
  from example_cpu_map rq example_check_cpu0 sc tr warn qt all calm q1 show ?thesis by simp
qed

text \<open>
  C1 as stated fails on a set with two hardware events and the online cpus 0 and 1. Two
  events are requested on cpu 0, and the check opens two cpu-cycles events there, not
  three. With counters that read \<^verbatim>\<open>time_enabled > time_running\<close> the warning is logged
  after the check of cpu 0 and no event is opened on cpu 1, where two events were
  requested as well. With counters that were never enabled the warning is logged although
  no counter has \<^verbatim>\<open>time_enabled > time_running\<close>.
\<close>

theorem multiplexing_check_opens_no_extra_event:
  "GetHardwareCountersForCpus example_env example_set = [(0, 2), (1, 2)] \<and>
   requested_count example_env example_set 0 = 2 \<and>
   requested_count example_env example_set 1 = 2 \<and>
   fst (CheckHardwareCounterMultiplexing example_env example_set []) \<and>
   map open_cpu (filter is_open (snd (CheckHardwareCounterMultiplexing example_env example_set [])))
     = [Some 0, Some 0] \<and>
   fst (CheckHardwareCounterMultiplexing example_env_idle example_set []) \<and>
   \<not> time_running (read_value example_env_idle
         (snd (CheckHardwareCounterMultiplexing example_env_idle example_set [])))
     < time_enabled (read_value example_env_idle
         (snd (CheckHardwareCounterMultiplexing example_env_idle example_set [])))"
proof -
  have m: "GetHardwareCountersForCpus example_env example_set = [(0, 2), (1, 2)]"
    by (rule example_cpu_map)
  have mi: "GetHardwareCountersForCpus example_env_idle example_set = [(0, 2), (1, 2)]"
    by (simp add: example_env_idle_def example_set_def example_defs check_defs Let_def)
  have rq: "requested_count example_env example_set 0 = 2 \<and>
            requested_count example_env example_set 1 = 2"
    by (simp add: requested_count_def count_cpus_def hardware_events_def example_set_def
          example_defs Let_def)
  have c0: "CheckHardwareCounterMultiplexing example_env example_set [] =
        (True, snd (CheckHardwareCountersOnCpu example_env 0 2 []))"
    using example_check_cpu0
    by (cases "CheckHardwareCountersOnCpu example_env 0 2 []")
       (simp add: CheckHardwareCounterMultiplexing_def example_cpu_map)
  have op: "map open_cpu (filter is_open (snd (CheckHardwareCountersOnCpu example_env 0 2 [])))
            = [Some 0, Some 0]"
    by (simp add: example_env_def example_find_def example_types_def hw_type_def sw_type_def
          zero_attr_def check_defs Let_def)
  have i0: "fst (CheckHardwareCountersOnCpu example_env_idle 0 2 []) = Some False"
    by (simp add: example_env_idle_def example_env_def example_find_def example_types_def
          hw_type_def sw_type_def zero_attr_def check_defs Let_def)
  have ci: "fst (CheckHardwareCounterMultiplexing example_env_idle example_set [])"
    using i0
    by (cases "CheckHardwareCountersOnCpu example_env_idle 0 2 []")
       (simp add: CheckHardwareCounterMultiplexing_def mi)
  have ti: "\<And>w. \<not> time_running (read_value example_env_idle w)
                  < time_enabled (read_value example_env_idle w)"
    by (simp add: example_env_idle_def example_env_def)
  from m rq c0 op ci ti show ?thesis by simp
qed

end
